theory Spec2Isabelle
  imports Main "HOL-Library.Sublist" "HOL-Library.Multiset"
begin

section \<open>The platform the code runs on\<close>

text \<open>
  The code calls services of its JavaScript runtime whose full behaviour is outside the
  repository: \<^verbatim>\<open>new Date(s).getTime()\<close>, \<^verbatim>\<open>new URL(s).pathname\<close> and
  \<^verbatim>\<open>Array.prototype.sort\<close>.  The embedding takes them as a parameter, so every general
  theorem below holds for any runtime, or for any runtime that meets the condition the theorem
  names.  A JavaScript number that is either an integer or \<^verbatim>\<open>NaN\<close> is an \<open>int option\<close>,
  with \<open>None\<close> for \<^verbatim>\<open>NaN\<close>; a call that may throw returns an option or a sum.  Strings are
  lists of 8-bit characters.
\<close>

text \<open>\<^verbatim>\<open>TweetInfo\<close> as \<^verbatim>\<open>fetchSingleUser\<close> builds it.\<close>

record TweetInfo =
  userId :: string
  textContent :: string
  time :: string
  imageUrls :: "string list"

text \<open>\<open>arraySort cmp xs\<close> is the array that \<^verbatim>\<open>[...xs].sort(cmp)\<close> evaluates to, for a
  comparator that returns a number or \<^verbatim>\<open>NaN\<close> and has no effect.  The language standard
  fixes this array only when the comparator orders the elements consistently; otherwise the
  order is the engine's choice.\<close>

record platform =
  getTime :: "string \<Rightarrow> int option"
  urlPathname :: "string \<Rightarrow> string option"
  arraySort :: "(TweetInfo \<Rightarrow> TweetInfo \<Rightarrow> int option) \<Rightarrow> TweetInfo list \<Rightarrow> TweetInfo list"

text \<open>\<^verbatim>\<open>a < b\<close> on numbers: false as soon as one side is \<^verbatim>\<open>NaN\<close>.\<close>

fun numLess :: "int option \<Rightarrow> int option \<Rightarrow> bool" where
  "numLess (Some a) (Some b) = (a < b)"
| "numLess _ _ = False"

text \<open>\<^verbatim>\<open>s.includes(sub)\<close>: \<open>sub\<close> occurs in \<open>s\<close> as a contiguous block.\<close>

fun includes_str :: "string \<Rightarrow> string \<Rightarrow> bool" where
  "includes_str [] sub = (sub = [])"
| "includes_str (c # cs) sub = (take (length sub) (c # cs) = sub \<or> includes_str cs sub)"

text \<open>\<^verbatim>\<open>s.trim()\<close> on 8-bit strings: tab, line feed, vertical tab, form feed, carriage
  return, space and no-break space are stripped from both ends.\<close>

definition isSpace :: "char \<Rightarrow> bool" where
  "isSpace c = (of_char c \<in> {9, 10, 11, 12, 13, 32, 160 :: nat})"

definition trim :: "string \<Rightarrow> string" where
  "trim s = rev (dropWhile isSpace (rev (dropWhile isSpace s)))"

section \<open>Data model\<close>

text \<open>The record the in-page extraction returns: the fields of \<^verbatim>\<open>TweetInfo\<close>, with the
  permalink \<^verbatim>\<open>id\<close> and \<^verbatim>\<open>isPinned\<close>.\<close>

record candidate = TweetInfo +
  tweetId :: string
  isPinned :: bool

text \<open>What the extraction callback reads of one \<^verbatim>\<open>article[data-testid="tweet"]\<close> node:
  the text of its social-context element, its \<^verbatim>\<open>a\<close> elements in document order (the
  \<^verbatim>\<open>href\<close> attribute and the resolved \<^verbatim>\<open>href\<close> property), the \<^verbatim>\<open>datetime\<close> attribute
  of its first \<^verbatim>\<open>time[datetime]\<close> element, the text of its tweet-text element, and the
  \<^verbatim>\<open>src\<close> of the images under its photo elements.

  The selector of the author link is built from the user id, which is spliced into it as it
  is; what that text selects, and whether it is a selector at all, is for the browser to say.
  \<open>selects sel\<close> is the outcome of \<^verbatim>\<open>article.querySelector(sel)\<close>: \<open>None\<close> when the call
  throws, otherwise whether an element was found.  \<open>domThrows\<close> stands for an exception
  raised by any other read of the node before the callback leaves it.\<close>

record article =
  socialContext :: "string option"
  anchors :: "(string \<times> string) list"
  selects :: "string \<Rightarrow> bool option"
  timeDatetime :: "string option"
  tweetText :: "string option"
  photoSrcs :: "string list"
  domThrows :: bool

datatype error = UserNotFound string | Failure string

text \<open>One rendering surface, as far as \<^verbatim>\<open>fetchSingleUser\<close> observes it: the outcome of
  opening it and sizing its viewport, of the navigation, of the empty-state probe, of the wait
  for the first article, the articles that the extraction of round \<open>k\<close> finds (or the error
  of the page when it cannot run the extraction), the outcome of the scroll after round \<open>k\<close>,
  and of closing.\<close>

record page =
  newPageError :: "error option"
  gotoError :: "error option"
  emptyState :: bool
  waitError :: "error option"
  articlesAt :: "nat \<Rightarrow> error + article list"
  scrollError :: "nat \<Rightarrow> error option"
  closeError :: "error option"

text \<open>The local variables of one \<^verbatim>\<open>fetchSingleUser\<close> call.  \<open>addedCount\<close> and
  \<open>nonPinnedOldTweetCount\<close> are declared inside the \<^verbatim>\<open>while\<close> body.\<close>

record run =
  tweets :: "TweetInfo list"
  tweetIds :: "string set"
  scrollAttempts :: nat
  noNewTweetsCount :: nat
  hasReachedStartTime :: bool
  addedCount :: nat
  nonPinnedOldTweetCount :: nat

section \<open>Feed collector: \<^verbatim>\<open>fetchSingleUser\<close>\<close>

subsection \<open>Extraction of the rendered articles\<close>

definition pinnedOf :: "article \<Rightarrow> bool" where
  "pinnedOf a = (case socialContext a of None \<Rightarrow> False | Some t \<Rightarrow> includes_str t ''Pinned'')"

definition tweetLink :: "article \<Rightarrow> (string \<times> string) option" where
  "tweetLink a = find (\<lambda>l. includes_str (fst l) ''/status/'') (anchors a)"

text \<open>The template literal \<^verbatim>\<open>a[href="/${args.targetUserId}"]\<close> and the query with it.\<close>

definition userLinkSelector :: "string \<Rightarrow> string" where
  "userLinkSelector targetUserId =
     ''a[href='' @ [CHR 0x22] @ ''/'' @ targetUserId @ [CHR 0x22] @ '']''"

definition userLink :: "string \<Rightarrow> article \<Rightarrow> bool option" where
  "userLink targetUserId a = selects a (userLinkSelector targetUserId)"

definition photoUrls :: "article \<Rightarrow> string list" where
  "photoUrls a = filter (\<lambda>src. src \<noteq> [] \<and> \<not> includes_str src ''profile_images'') (photoSrcs a)"

text \<open>The handler of the callback's \<^verbatim>\<open>catch\<close> evaluates \<^verbatim>\<open>userId\<close>, a variable of
  \<^verbatim>\<open>fetchSingleUser\<close>.  The callback runs in the page, where only its parameters are bound
  (the user id is passed as \<^verbatim>\<open>args.targetUserId\<close>) and the page is taken to define no
  global of that name: the handler throws a \<^verbatim>\<open>ReferenceError\<close>, which leaves the callback.\<close>

definition handlerError :: error where
  "handlerError = Failure ''ReferenceError: userId is not defined''"

text \<open>The body of \<^verbatim>\<open>articles.forEach\<close>: \<open>Inr None\<close> is an early \<^verbatim>\<open>return\<close>,
  \<open>Inr (Some c)\<close> the record pushed to \<^verbatim>\<open>results\<close>, \<open>Inl\<close> the exception that leaves
  the body when the \<^verbatim>\<open>try\<close> block throws.\<close>

definition extractArticle :: "string \<Rightarrow> article \<Rightarrow> error + candidate option" where
  "extractArticle targetUserId a =
     (if domThrows a then Inl handlerError
      else case tweetLink a of
        None \<Rightarrow> Inr None
      | Some l \<Rightarrow>
          (case userLink targetUserId a of
             None \<Rightarrow> Inl handlerError
           | Some found \<Rightarrow>
               if \<not> found then Inr None
               else (case timeDatetime a of
                  None \<Rightarrow> Inr None
                | Some datetime \<Rightarrow>
                    Inr (Some \<lparr> userId = targetUserId,
                           textContent = trim (case tweetText a of None \<Rightarrow> [] | Some t \<Rightarrow> t),
                           time = datetime,
                           imageUrls = photoUrls a,
                           tweetId = snd l,
                           isPinned = pinnedOf a \<rparr>))))"

text \<open>The callback of \<^verbatim>\<open>page.$$eval\<close>: \<^verbatim>\<open>forEach\<close> stops at the first article whose body
  throws, and the exception is the outcome of the callback.\<close>

fun extractTweets :: "string \<Rightarrow> article list \<Rightarrow> error + candidate list" where
  "extractTweets targetUserId [] = Inr []"
| "extractTweets targetUserId (a # as) =
     (case extractArticle targetUserId a of
        Inl e \<Rightarrow> Inl e
      | Inr r \<Rightarrow>
          (case extractTweets targetUserId as of
             Inl e \<Rightarrow> Inl e
           | Inr results \<Rightarrow> Inr (case r of None \<Rightarrow> results | Some c \<Rightarrow> c # results)))"

text \<open>The call \<^verbatim>\<open>page.$$eval('article[data-testid="tweet"]', callback, args)\<close> of round
  \<open>k\<close>: it rejects when the page fails to run it, and when the callback throws.\<close>

definition newTweetsAt :: "page \<Rightarrow> string \<Rightarrow> nat \<Rightarrow> error + candidate list" where
  "newTweetsAt pg targetUserId k =
     (case articlesAt pg k of Inl e \<Rightarrow> Inl e | Inr as \<Rightarrow> extractTweets targetUserId as)"

subsection \<open>One round: dedup and the time boundary\<close>

definition toTweet :: "candidate \<Rightarrow> TweetInfo" where
  "toTweet c = \<lparr> userId = userId c, textContent = textContent c, time = time c,
                 imageUrls = imageUrls c \<rparr>"

definition startTimeMs :: "platform \<Rightarrow> string \<Rightarrow> int option" where
  "startTimeMs P st = (if st \<noteq> [] then getTime P st else Some 0)"

text \<open>The test \<^verbatim>\<open>startTime && tweetTime < startTimeMs\<close>.\<close>

definition isOld :: "platform \<Rightarrow> string \<Rightarrow> candidate \<Rightarrow> bool" where
  "isOld P st c = (st \<noteq> [] \<and> numLess (getTime P (time c)) (startTimeMs P st))"

text \<open>The \<^verbatim>\<open>for (const tweet of newTweets)\<close> loop; the equation that does not recurse is
  the \<^verbatim>\<open>break\<close>.\<close>

fun processTweets :: "platform \<Rightarrow> string \<Rightarrow> candidate list \<Rightarrow> run \<Rightarrow> run" where
  "processTweets P st [] s = s"
| "processTweets P st (c # cs) s =
     (if tweetId c \<notin> tweetIds s then
        (let s1 = s\<lparr>tweetIds := insert (tweetId c) (tweetIds s)\<rparr> in
         if isOld P st c then
           (if isPinned c then processTweets P st cs s1
            else
              (let s2 = s1\<lparr>nonPinnedOldTweetCount := nonPinnedOldTweetCount s1 + 1\<rparr> in
               if nonPinnedOldTweetCount s2 \<ge> 3 then s2\<lparr>hasReachedStartTime := True\<rparr>
               else processTweets P st cs s2))
         else
           processTweets P st cs
             (s1\<lparr>nonPinnedOldTweetCount := 0,
                 tweets := tweets s1 @ [toTweet c],
                 addedCount := addedCount s1 + 1\<rparr>))
      else processTweets P st cs s)"

text \<open>The part of the \<^verbatim>\<open>while\<close> body between the extraction and the two \<^verbatim>\<open>break\<close> tests:
  the two round-local counters start at 0, the candidates are processed, and the idle streak
  is updated.\<close>

definition processRound :: "platform \<Rightarrow> string \<Rightarrow> candidate list \<Rightarrow> run \<Rightarrow> run" where
  "processRound P st newTweets s =
     (let s1 = processTweets P st newTweets (s\<lparr>addedCount := 0, nonPinnedOldTweetCount := 0\<rparr>)
      in if addedCount s1 = 0 then s1\<lparr>noNewTweetsCount := noNewTweetsCount s1 + 1\<rparr>
         else s1\<lparr>noNewTweetsCount := 0\<rparr>)"

definition maxScrollAttempts :: nat where
  "maxScrollAttempts = 100"

subsection \<open>The pagination loop\<close>

function scrollLoop :: "platform \<Rightarrow> page \<Rightarrow> string \<Rightarrow> string \<Rightarrow> run \<Rightarrow> error + run" where
  "scrollLoop P pg uid st s =
     (if scrollAttempts s < maxScrollAttempts \<and> \<not> hasReachedStartTime s then
        (case newTweetsAt pg uid (scrollAttempts s) of
           Inl e \<Rightarrow> Inl e
         | Inr newTweets \<Rightarrow>
             (let s1 = processRound P st newTweets s in
              if addedCount s1 = 0 \<and> noNewTweetsCount s1 \<ge> 3 then Inr s1
              else if hasReachedStartTime s1 then Inr s1
              else (case scrollError pg (scrollAttempts s1) of
                      Some e \<Rightarrow> Inl e
                    | None \<Rightarrow> scrollLoop P pg uid st (s1\<lparr>scrollAttempts := scrollAttempts s1 + 1\<rparr>))))
      else Inr s)"
  by pat_completeness auto
termination
proof (relation "measure (\<lambda>(P, pg, uid, st, s). maxScrollAttempts - scrollAttempts s)")
  have inner: "scrollAttempts (processTweets P st cs s) = scrollAttempts s"
    for P st cs s
    by (induction cs arbitrary: s) (simp_all add: Let_def)
  have round: "scrollAttempts (processRound P st cs s) = scrollAttempts s"
    for P st cs s
    by (simp add: processRound_def Let_def inner)
  fix P :: platform and pg :: page and uid st :: string and s s1 :: run
    and newTweets :: "candidate list"
  assume "scrollAttempts s < maxScrollAttempts \<and> \<not> hasReachedStartTime s"
    and "s1 = processRound P st newTweets s"
  then show "((P, pg, uid, st, s1\<lparr>scrollAttempts := scrollAttempts s1 + 1\<rparr>), P, pg, uid, st, s)
       \<in> measure (\<lambda>(P, pg, uid, st, s). maxScrollAttempts - scrollAttempts s)"
    by (auto simp add: round)
qed simp

declare scrollLoop.simps [simp del]

definition initialRun :: run where
  "initialRun = \<lparr> tweets = [], tweetIds = {}, scrollAttempts = 0, noNewTweetsCount = 0,
                  hasReachedStartTime = False, addedCount = 0, nonPinnedOldTweetCount = 0 \<rparr>"

text \<open>The \<^verbatim>\<open>try\<close> block up to the end of the loop: navigation, the empty-state check, the
  wait for the first article, then the loop.\<close>

definition scrape :: "platform \<Rightarrow> page \<Rightarrow> string \<Rightarrow> string \<Rightarrow> error + run" where
  "scrape P pg uid st =
     (case gotoError pg of
        Some e \<Rightarrow> Inl e
      | None \<Rightarrow>
          if emptyState pg then Inl (UserNotFound uid)
          else (case waitError pg of
                  Some e \<Rightarrow> Inl e
                | None \<Rightarrow> scrollLoop P pg uid st initialRun))"

text \<open>\<^verbatim>\<open>fetchSingleUser\<close>: a failure to open the page propagates at once; inside the
  \<^verbatim>\<open>try\<close> the page is closed on both paths, and a failing \<^verbatim>\<open>page.close()\<close> is itself the
  error that propagates.\<close>

definition fetchSingleUser :: "platform \<Rightarrow> page \<Rightarrow> string \<Rightarrow> string \<Rightarrow> error + TweetInfo list" where
  "fetchSingleUser P pg uid st =
     (case newPageError pg of
        Some e \<Rightarrow> Inl e
      | None \<Rightarrow>
          (case scrape P pg uid st of
             Inr r \<Rightarrow> (case closeError pg of Some e \<Rightarrow> Inl e | None \<Rightarrow> Inr (tweets r))
           | Inl e \<Rightarrow> (case closeError pg of Some e' \<Rightarrow> Inl e' | None \<Rightarrow> Inl e)))"

section \<open>Multi-author orchestrator: \<^verbatim>\<open>fetchMultipleUser\<close>\<close>

record UserTweetsResult =
  resUserId :: string
  resTweets :: "TweetInfo list"
  latestTweetTime :: "string option"

record userConfig =
  cfgUserId :: string
  cfgStartTime :: string

text \<open>A \<^verbatim>\<open>beforeRetry\<close> hook is called with the user id, the attempt number and the last
  error; \<open>Some e\<close> is a hook that throws (or rejects with) \<open>e\<close>.\<close>

type_synonym hook = "string \<Rightarrow> int \<Rightarrow> error \<Rightarrow> error option"

record FetchOptions =
  maxRetries :: "int option"
  beforeRetry :: "hook option"
  downloadImages :: "bool option"
  downloadPath :: "string option"

subsection \<open>The latest tweet time\<close>

text \<open>The comparator \<^verbatim>\<open>(a, b) => new Date(b.time).getTime() - new Date(a.time).getTime()\<close>;
  a difference with a \<^verbatim>\<open>NaN\<close> operand is \<^verbatim>\<open>NaN\<close>.\<close>

definition compareTweets :: "platform \<Rightarrow> TweetInfo \<Rightarrow> TweetInfo \<Rightarrow> int option" where
  "compareTweets P a b =
     (case getTime P (time b) of
        None \<Rightarrow> None
      | Some tb \<Rightarrow> (case getTime P (time a) of None \<Rightarrow> None | Some ta \<Rightarrow> Some (tb - ta)))"

text \<open>\<^verbatim>\<open>[...tweets].sort(comparator)\<close>.\<close>

definition sortTweets :: "platform \<Rightarrow> TweetInfo list \<Rightarrow> TweetInfo list" where
  "sortTweets P ts = arraySort P (compareTweets P) ts"

text \<open>\<^verbatim>\<open>sortedTweets[0].time\<close> throws a \<^verbatim>\<open>TypeError\<close> when the sorted array is empty.\<close>

definition latestOf :: "platform \<Rightarrow> TweetInfo list \<Rightarrow> error + string option" where
  "latestOf P ts =
     (if length ts > 0 then
        (case sortTweets P ts of
           [] \<Rightarrow> Inl (Failure ''TypeError'')
         | t # _ \<Rightarrow> Inr (Some (time t)))
      else Inr None)"

subsection \<open>One job: the retry loop\<close>

text \<open>The \<^verbatim>\<open>try\<close> block of one attempt.\<close>

definition attemptFetch :: "platform \<Rightarrow> page \<Rightarrow> userConfig \<Rightarrow> error + UserTweetsResult" where
  "attemptFetch P pg config =
     (case fetchSingleUser P pg (cfgUserId config) (cfgStartTime config) of
        Inl e \<Rightarrow> Inl e
      | Inr ts \<Rightarrow>
          (case latestOf P ts of
             Inl e \<Rightarrow> Inl e
           | Inr latest \<Rightarrow>
               Inr \<lparr> resUserId = cfgUserId config, resTweets = ts, latestTweetTime = latest \<rparr>))"

text \<open>The effect of a job on the world is the sequence of its hook invocations.\<close>

type_synonym hookCall = "string \<times> int \<times> error"

definition emptyResult :: "userConfig \<Rightarrow> UserTweetsResult" where
  "emptyResult config = \<lparr> resUserId = cfgUserId config, resTweets = [], latestTweetTime = None \<rparr>"

text \<open>The \<^verbatim>\<open>for (let attempt = 1; attempt <= maxRetries; attempt++)\<close> loop of one task.
  \<open>pages n\<close> is the page that attempt \<open>n\<close> opens.  The inner \<^verbatim>\<open>try\<close>/\<^verbatim>\<open>catch\<close> around the
  hook has the same continuation on both of its paths.\<close>

function retryLoop ::
  "platform \<Rightarrow> (int \<Rightarrow> page) \<Rightarrow> int \<Rightarrow> hook option \<Rightarrow> userConfig \<Rightarrow> int \<Rightarrow> hookCall list
     \<Rightarrow> hookCall list \<times> (error + UserTweetsResult)" where
  "retryLoop P pages maxR hk config attempt calls =
     (if attempt \<le> maxR then
        (case attemptFetch P (pages attempt) config of
           Inr res \<Rightarrow> (calls, Inr res)
         | Inl lastError \<Rightarrow>
             (if attempt < maxR then
                (case hk of
                   Some h \<Rightarrow>
                     (case h (cfgUserId config) attempt lastError of
                        None \<Rightarrow>
                          retryLoop P pages maxR hk config (attempt + 1)
                            (calls @ [(cfgUserId config, attempt, lastError)])
                      | Some hookError \<Rightarrow>
                          retryLoop P pages maxR hk config (attempt + 1)
                            (calls @ [(cfgUserId config, attempt, lastError)]))
                 | None \<Rightarrow> retryLoop P pages maxR hk config (attempt + 1) calls)
              else retryLoop P pages maxR hk config (attempt + 1) calls))
      else (calls, Inr (emptyResult config)))"
  by pat_completeness auto
termination
  by (relation "measure (\<lambda>(P, pages, maxR, hk, config, attempt, calls). nat (maxR + 1 - attempt))")
    auto

declare retryLoop.simps [simp del]

text \<open>\<^verbatim>\<open>options?.maxRetries ?? 3\<close> and \<^verbatim>\<open>options?.beforeRetry\<close>; the number of attempts is taken
  to be an integer.\<close>

definition maxRetriesOf :: "FetchOptions option \<Rightarrow> int" where
  "maxRetriesOf options =
     (case options of None \<Rightarrow> 3 | Some opts \<Rightarrow> (case maxRetries opts of None \<Rightarrow> 3 | Some n \<Rightarrow> n))"

definition beforeRetryOf :: "FetchOptions option \<Rightarrow> hook option" where
  "beforeRetryOf options = (case options of None \<Rightarrow> None | Some opts \<Rightarrow> beforeRetry opts)"

definition fetchTask ::
  "platform \<Rightarrow> (int \<Rightarrow> page) \<Rightarrow> FetchOptions option \<Rightarrow> userConfig
     \<Rightarrow> hookCall list \<times> (error + UserTweetsResult)" where
  "fetchTask P pages options config =
     retryLoop P pages (maxRetriesOf options) (beforeRetryOf options) config 1 []"

subsection \<open>Fan-out and fan-in\<close>

text \<open>\<^verbatim>\<open>Promise.all\<close> fulfils with the values in the order of the promises it was given, and
  rejects as soon as one of them rejects.\<close>

fun promiseAll :: "(error + 'a) list \<Rightarrow> error + 'a list" where
  "promiseAll [] = Inr []"
| "promiseAll (Inl e # rs) = Inl e"
| "promiseAll (Inr v # rs) = (case promiseAll rs of Inl e \<Rightarrow> Inl e | Inr vs \<Rightarrow> Inr (v # vs))"

text \<open>\<open>world i n\<close> is the page that the task of the \<open>i\<close>-th job opens in its \<open>n\<close>-th attempt.
  The tasks share no variable, so each task's outcome is a function of its own pages.\<close>

definition fetchMultipleUser ::
  "platform \<Rightarrow> (nat \<Rightarrow> int \<Rightarrow> page) \<Rightarrow> userConfig list \<Rightarrow> FetchOptions option
     \<Rightarrow> error + UserTweetsResult list" where
  "fetchMultipleUser P world userConfigs options =
     promiseAll (map (\<lambda>(i, config). snd (fetchTask P (world i) options config))
                     (enumerate 0 userConfigs))"

section \<open>Image materializer: \<^verbatim>\<open>transformTweetImages\<close>\<close>

subsection \<open>Library functions on strings\<close>

text \<open>The decimal rendering of an integer, as a template literal prints a number of this size.\<close>

definition digitChar :: "int \<Rightarrow> char" where
  "digitChar d = ''0123456789'' ! nat (d mod 10)"

function showDigits :: "int \<Rightarrow> string" where
  "showDigits i = (if i < 10 then [digitChar i] else showDigits (i div 10) @ [digitChar i])"
  by pat_completeness auto
termination
  by (relation "measure nat") auto

declare showDigits.simps [simp del]

definition showInt :: "int \<Rightarrow> string" where
  "showInt i = (if i < 0 then ''-'' @ showDigits (- i) else showDigits i)"

definition showNat :: "nat \<Rightarrow> string" where
  "showNat n = showDigits (int n)"

text \<open>\<^verbatim>\<open>path.extname\<close> (POSIX): the part of the last path segment from its last dot on, and
  the empty string when the segment has no dot, starts with its only candidate dot, or is
  \<^verbatim>\<open>..\<close>.\<close>

definition isSlash :: "char \<Rightarrow> bool" where
  "isSlash c = (c = CHR ''/'')"

definition isDot :: "char \<Rightarrow> bool" where
  "isDot c = (c = CHR ''.'')"

definition baseSegment :: "string \<Rightarrow> string" where
  "baseSegment p = rev (takeWhile (\<lambda>c. \<not> isSlash c) (dropWhile isSlash (rev p)))"

definition extname :: "string \<Rightarrow> string" where
  "extname p =
     (let base = baseSegment p;
          tail = rev (takeWhile (\<lambda>c. \<not> isDot c) (rev base))
      in if \<not> list_ex isDot base \<or> length tail + 1 = length base \<or> base = ''..''
         then []
         else CHR ''.'' # tail)"

text \<open>\<^verbatim>\<open>path.posix.join\<close> of two strings: the non-empty arguments are joined with a slash and
  the result is normalised (empty and \<^verbatim>\<open>.\<close> segments dropped, \<^verbatim>\<open>..\<close> resolved against
  the segment before it).\<close>

fun splitSlash :: "string \<Rightarrow> string list" where
  "splitSlash [] = [[]]"
| "splitSlash (c # cs) =
     (if isSlash c then [] # splitSlash cs
      else (case splitSlash cs of [] \<Rightarrow> [[c]] | seg # segs \<Rightarrow> (c # seg) # segs))"

definition normStep :: "bool \<Rightarrow> string list \<Rightarrow> string \<Rightarrow> string list" where
  "normStep allowAboveRoot res seg =
     (if seg = [] \<or> seg = ''.'' then res
      else if seg = ''..'' then
        (if res \<noteq> [] \<and> last res \<noteq> ''..'' then butlast res
         else if allowAboveRoot then res @ [''..'']
         else res)
      else res @ [seg])"

fun joinSlash :: "string list \<Rightarrow> string" where
  "joinSlash [] = []"
| "joinSlash [seg] = seg"
| "joinSlash (seg # segs) = seg @ ''/'' @ joinSlash segs"

definition normalizeString :: "string \<Rightarrow> bool \<Rightarrow> string" where
  "normalizeString p allowAboveRoot = joinSlash (foldl (normStep allowAboveRoot) [] (splitSlash p))"

definition normalize :: "string \<Rightarrow> string" where
  "normalize p =
     (if p = [] then ''.''
      else
        (let isAbsolute = isSlash (hd p);
             trailingSeparator = isSlash (last p);
             q = normalizeString p (\<not> isAbsolute)
         in if q = [] then (if isAbsolute then ''/'' else if trailingSeparator then ''./'' else ''.'')
            else (if isAbsolute then ''/'' else []) @ q @ (if trailingSeparator then ''/'' else [])))"

definition posixJoin :: "string \<Rightarrow> string \<Rightarrow> string" where
  "posixJoin a b =
     (case filter (\<lambda>arg. arg \<noteq> []) [a, b] of
        [] \<Rightarrow> ''.''
      | parts \<Rightarrow> normalize (joinSlash parts))"

subsection \<open>File names\<close>

definition getImageExtension :: "platform \<Rightarrow> string \<Rightarrow> string" where
  "getImageExtension P imageUrl =
     (case urlPathname P imageUrl of
        None \<Rightarrow> ''.jpg''
      | Some pathname \<Rightarrow> (let ext = extname pathname in if ext \<noteq> [] then ext else ''.jpg''))"

text \<open>\<open>now\<close> is the value \<^verbatim>\<open>Date.now()\<close> has when this call is made; the call reads it
  only when the post's time is not a timestamp.\<close>

definition createImageFilename :: "platform \<Rightarrow> int \<Rightarrow> string \<Rightarrow> nat \<Rightarrow> string \<Rightarrow> string" where
  "createImageFilename P now tweetTime index imageUrl =
     (let timestampSeconds =
            (case getTime P tweetTime of
               Some millis \<Rightarrow> millis div 1000
             | None \<Rightarrow> now div 1000)
      in showInt timestampSeconds @ ''-'' @ showNat index @ getImageExtension P imageUrl)"

subsection \<open>Downloads\<close>

record response =
  status :: nat
  buffer :: "error + string"

text \<open>The file system, the network and the clock, as far as one materializer run observes
  them: the outcome of creating the root directory, of opening the download page, of creating
  the author directory of the post at position \<open>p\<close>, the value of \<^verbatim>\<open>Date.now()\<close> when the
  file name of image \<open>i\<close> of that post is made, the outcome of waiting for the response to
  that image, and of writing its file.  The paths of the directories and files only name the
  targets of these calls.\<close>

record imageWorld =
  mkdirRootError :: "error option"
  downloadPageError :: "error option"
  mkdirUserError :: "nat \<Rightarrow> error option"
  dateNow :: "nat \<Rightarrow> nat \<Rightarrow> int"
  responseFor :: "nat \<Rightarrow> nat \<Rightarrow> string \<Rightarrow> error + response"
  writeFileError :: "nat \<Rightarrow> nat \<Rightarrow> error option"

text \<open>\<^verbatim>\<open>response.ok()\<close> of the browser-automation library: the status is \<open>0\<close> or lies in
  \<open>200..299\<close>.\<close>

definition ok :: "response \<Rightarrow> bool" where
  "ok r = (status r = 0 \<or> (200 \<le> status r \<and> status r \<le> 299))"

definition downloadImageViaPage :: "imageWorld \<Rightarrow> nat \<Rightarrow> nat \<Rightarrow> string \<Rightarrow> error + string" where
  "downloadImageViaPage W p index imageUrl =
     (case responseFor W p index imageUrl of
        Inl e \<Rightarrow> Inl e
      | Inr r \<Rightarrow> if \<not> ok r then Inl (Failure imageUrl) else buffer r)"

text \<open>The \<^verbatim>\<open>for (let index = 0; ...)\<close> loop over the images of one post, from position
  \<open>index\<close> on; the list built is \<^verbatim>\<open>downloadedUrls\<close>.\<close>

fun downloadImagesFrom ::
  "platform \<Rightarrow> imageWorld \<Rightarrow> nat \<Rightarrow> TweetInfo \<Rightarrow> nat \<Rightarrow> string list \<Rightarrow> string list" where
  "downloadImagesFrom P W p tweet index [] = []"
| "downloadImagesFrom P W p tweet index (imageUrl # rest) =
     (let filename = createImageFilename P (dateNow W p index) (time tweet) (index + 1) imageUrl in
      (case downloadImageViaPage W p index imageUrl of
         Inl e \<Rightarrow> imageUrl
       | Inr buf \<Rightarrow>
           (case writeFileError W p index of
              Some e \<Rightarrow> imageUrl
            | None \<Rightarrow> posixJoin (userId tweet) filename))
      # downloadImagesFrom P W p tweet (index + 1) rest)"

text \<open>The \<^verbatim>\<open>for (const tweet of tweets)\<close> loop, from the post at position \<open>p\<close> on; the list
  built is \<^verbatim>\<open>transformed\<close>.  The author directory is created outside the per-image
  \<^verbatim>\<open>try\<close>.\<close>

fun downloadTweetsFrom ::
  "platform \<Rightarrow> imageWorld \<Rightarrow> nat \<Rightarrow> TweetInfo list \<Rightarrow> error + TweetInfo list" where
  "downloadTweetsFrom P W p [] = Inr []"
| "downloadTweetsFrom P W p (tweet # rest) =
     (if imageUrls tweet = [] then
        (case downloadTweetsFrom P W (p + 1) rest of
           Inl e \<Rightarrow> Inl e
         | Inr transformed \<Rightarrow> Inr (tweet # transformed))
      else
        (case mkdirUserError W p of
           Some e \<Rightarrow> Inl e
         | None \<Rightarrow>
             (let downloadedUrls = downloadImagesFrom P W p tweet 0 (imageUrls tweet) in
              case downloadTweetsFrom P W (p + 1) rest of
                Inl e \<Rightarrow> Inl e
              | Inr transformed \<Rightarrow> Inr (tweet\<lparr>imageUrls := downloadedUrls\<rparr> # transformed))))"

definition downloadTweetsWithPage ::
  "platform \<Rightarrow> imageWorld \<Rightarrow> TweetInfo list \<Rightarrow> error + TweetInfo list" where
  "downloadTweetsWithPage P W ts = downloadTweetsFrom P W 0 ts"

text \<open>The downloader object; its \<^verbatim>\<open>close\<close> swallows every error and returns nothing.\<close>

record TweetImageDownloader =
  downloadTweets :: "TweetInfo list \<Rightarrow> error + TweetInfo list"

definition createTweetImageDownloader ::
  "platform \<Rightarrow> imageWorld \<Rightarrow> FetchOptions \<Rightarrow> error + TweetImageDownloader" where
  "createTweetImageDownloader P W options =
     (if downloadImages options \<noteq> Some True then Inr \<lparr> downloadTweets = (\<lambda>ts. Inr ts) \<rparr>
      else
        (case mkdirRootError W of
           Some e \<Rightarrow> Inl e
         | None \<Rightarrow>
             (case downloadPageError W of
                Some e \<Rightarrow> Inl e
              | None \<Rightarrow> Inr \<lparr> downloadTweets = downloadTweetsWithPage P W \<rparr>)))"

definition transformTweetImages ::
  "platform \<Rightarrow> imageWorld \<Rightarrow> TweetInfo list \<Rightarrow> FetchOptions \<Rightarrow> error + TweetInfo list" where
  "transformTweetImages P W ts options =
     (case createTweetImageDownloader P W options of
        Inl e \<Rightarrow> Inl e
      | Inr downloader \<Rightarrow> downloadTweets downloader ts)"

text \<open>The earlier form of \<^verbatim>\<open>transformTweetImages\<close>, with the downloader inlined.\<close>

definition transformTweetImagesInline ::
  "platform \<Rightarrow> imageWorld \<Rightarrow> TweetInfo list \<Rightarrow> FetchOptions \<Rightarrow> error + TweetInfo list" where
  "transformTweetImagesInline P W ts options =
     (if downloadImages options \<noteq> Some True then Inr ts
      else
        (case mkdirRootError W of
           Some e \<Rightarrow> Inl e
         | None \<Rightarrow>
             (case downloadPageError W of
                Some e \<Rightarrow> Inl e
              | None \<Rightarrow> downloadTweetsFrom P W 0 ts)))"

section \<open>What the language standard fixes about \<^verbatim>\<open>sort\<close>\<close>

text \<open>The standard reads a \<^verbatim>\<open>NaN\<close> from the comparator as \<open>0\<close>.  It calls a comparator
  consistent for a collection of values when, on them, comparing equal is reflexive,
  symmetric and transitive and comparing less and comparing greater are transitive.  For such
  a comparator the sorted array is a rearrangement of the input in which an element that
  compares less than another comes before it and elements that compare equal keep their
  order.  There is one such arrangement, and \<open>stableSort\<close> computes it: it inserts the
  elements, from the last to the first, each in front of the first element it does not compare
  greater than.  For any other comparator the array is a rearrangement of the input whose
  order the engine chooses.\<close>

definition sortCompare :: "(TweetInfo \<Rightarrow> TweetInfo \<Rightarrow> int option) \<Rightarrow> TweetInfo \<Rightarrow> TweetInfo \<Rightarrow> int" where
  "sortCompare cmp a b = (case cmp a b of None \<Rightarrow> 0 | Some v \<Rightarrow> v)"

definition consistentComparator :: "(TweetInfo \<Rightarrow> TweetInfo \<Rightarrow> int option) \<Rightarrow> TweetInfo list \<Rightarrow> bool" where
  "consistentComparator cmp ts =
     (\<forall>a\<in>set ts. \<forall>b\<in>set ts. \<forall>c\<in>set ts.
        sortCompare cmp a a = 0 \<and>
        (sortCompare cmp a b = 0 \<longrightarrow> sortCompare cmp b a = 0) \<and>
        (sortCompare cmp a b = 0 \<and> sortCompare cmp b c = 0 \<longrightarrow> sortCompare cmp a c = 0) \<and>
        (sortCompare cmp a b < 0 \<and> sortCompare cmp b c < 0 \<longrightarrow> sortCompare cmp a c < 0) \<and>
        (sortCompare cmp a b > 0 \<and> sortCompare cmp b c > 0 \<longrightarrow> sortCompare cmp a c > 0))"

fun insertStable ::
  "(TweetInfo \<Rightarrow> TweetInfo \<Rightarrow> int option) \<Rightarrow> TweetInfo \<Rightarrow> TweetInfo list \<Rightarrow> TweetInfo list" where
  "insertStable cmp x [] = [x]"
| "insertStable cmp x (y # ys) =
     (if sortCompare cmp x y \<le> 0 then x # y # ys else y # insertStable cmp x ys)"

definition stableSort ::
  "(TweetInfo \<Rightarrow> TweetInfo \<Rightarrow> int option) \<Rightarrow> TweetInfo list \<Rightarrow> TweetInfo list" where
  "stableSort cmp ts = foldr (insertStable cmp) ts []"

text \<open>A platform whose \<^verbatim>\<open>sort\<close> does what the standard requires.\<close>

definition conforming :: "platform \<Rightarrow> bool" where
  "conforming P =
     (\<forall>cmp ts. mset (arraySort P cmp ts) = mset ts \<and>
               (consistentComparator cmp ts \<longrightarrow> arraySort P cmp ts = stableSort cmp ts))"

section \<open>A reference platform for the worked examples\<close>

text \<open>The examples need concrete values of the platform services.  \<open>isoGetTime\<close> reads the
  date-time format of the language standard in the shape the code documents
  (\<^verbatim>\<open>2026-01-20T00:00:00.000Z\<close>) and is \<^verbatim>\<open>NaN\<close> elsewhere; \<open>httpPathname\<close> reads the path
  of an \<^verbatim>\<open>http(s)://host/path?query#fragment\<close> address and throws elsewhere; the sort is
  \<open>stableSort\<close> for every comparator.  The examples use only strings on which every
  conforming runtime agrees with the first two, and sort only lists on which the comparator is
  consistent.\<close>

definition digitVal :: "char \<Rightarrow> int option" where
  "digitVal c = (let n = of_char c :: int in if 48 \<le> n \<and> n \<le> 57 then Some (n - 48) else None)"

fun intOfDigits :: "int \<Rightarrow> string \<Rightarrow> int option" where
  "intOfDigits acc [] = Some acc"
| "intOfDigits acc (c # cs) =
     (case digitVal c of None \<Rightarrow> None | Some d \<Rightarrow> intOfDigits (10 * acc + d) cs)"

definition field :: "nat \<Rightarrow> nat \<Rightarrow> string \<Rightarrow> int option" where
  "field pos len s = intOfDigits 0 (take len (drop pos s))"

definition daysFromCivil :: "int \<Rightarrow> int \<Rightarrow> int \<Rightarrow> int" where
  "daysFromCivil y m d =
     (let y' = (if m \<le> 2 then y - 1 else y);
          era = y' div 400;
          yoe = y' - era * 400;
          doy = (153 * (if m > 2 then m - 3 else m + 9) + 2) div 5 + d - 1;
          doe = yoe * 365 + yoe div 4 - yoe div 100 + doy
      in era * 146097 + doe - 719468)"

definition daysInMonth :: "int \<Rightarrow> int \<Rightarrow> int" where
  "daysInMonth y m =
     (if m = 2 then (if y mod 4 = 0 \<and> (y mod 100 \<noteq> 0 \<or> y mod 400 = 0) then 29 else 28)
      else if m = 4 \<or> m = 6 \<or> m = 9 \<or> m = 11 then 30 else 31)"

definition isoGetTime :: "string \<Rightarrow> int option" where
  "isoGetTime s =
     (if length s = 24 \<and> map (\<lambda>i. s ! i) [4, 7, 10, 13, 16, 19, 23] = ''--T::.Z'' then
        (case (field 0 4 s, field 5 2 s, field 8 2 s, field 11 2 s, field 14 2 s,
               field 17 2 s, field 20 3 s) of
           (Some y, Some m, Some d, Some h, Some mi, Some sec, Some ms) \<Rightarrow>
             if 1 \<le> m \<and> m \<le> 12 \<and> 1 \<le> d \<and> d \<le> daysInMonth y m \<and> h \<le> 23 \<and> mi \<le> 59 \<and> sec \<le> 59
             then Some ((((daysFromCivil y m d * 24 + h) * 60 + mi) * 60 + sec) * 1000 + ms)
             else None
         | _ \<Rightarrow> None)
      else None)"

definition isPathEnd :: "char \<Rightarrow> bool" where
  "isPathEnd c = (c = CHR ''?'' \<or> c = CHR ''#'')"

definition httpPathname :: "string \<Rightarrow> string option" where
  "httpPathname s =
     (let rest = (if take 8 s = ''https://'' then Some (drop 8 s)
                  else if take 7 s = ''http://'' then Some (drop 7 s)
                  else None)
      in case rest of
           None \<Rightarrow> None
         | Some r \<Rightarrow>
             (let host = takeWhile (\<lambda>c. \<not> isSlash c \<and> \<not> isPathEnd c) r;
                  path = takeWhile (\<lambda>c. \<not> isPathEnd c)
                           (dropWhile (\<lambda>c. \<not> isSlash c \<and> \<not> isPathEnd c) r)
              in if host = [] then None else Some (if path = [] then ''/'' else path)))"

definition refPlatform :: platform where
  "refPlatform = \<lparr> getTime = isoGetTime, urlPathname = httpPathname, arraySort = stableSort \<rparr>"

section \<open>Notions used in the statements\<close>

text \<open>The newly-deduped candidates of a list, in order: those whose id is neither in \<open>seen\<close>
  nor carried by an earlier candidate of the list.\<close>

fun fresh :: "string set \<Rightarrow> candidate list \<Rightarrow> candidate list" where
  "fresh seen [] = []"
| "fresh seen (c # cs) =
     (if tweetId c \<in> seen then fresh seen cs else c # fresh (insert (tweetId c) seen) cs)"

text \<open>The candidates the extraction of round \<open>k\<close> returns, and the discovery sequence of
  the first \<open>n\<close> rounds.\<close>

definition roundCandidates :: "page \<Rightarrow> string \<Rightarrow> nat \<Rightarrow> candidate list" where
  "roundCandidates pg uid k =
     (case newTweetsAt pg uid k of Inl e \<Rightarrow> [] | Inr newTweets \<Rightarrow> newTweets)"

definition discovered :: "page \<Rightarrow> string \<Rightarrow> nat \<Rightarrow> candidate list" where
  "discovered pg uid n = concat (map (roundCandidates pg uid) [0..<n])"

text \<open>The \<^verbatim>\<open>try\<close> block of the extraction throws on an article.\<close>

definition throws :: "string \<Rightarrow> article \<Rightarrow> bool" where
  "throws uid a = (domThrows a \<or> (tweetLink a \<noteq> None \<and> userLink uid a = None))"

text \<open>A candidate that counts towards the stale streak; the two \<^verbatim>\<open>break\<close> tests of the
  \<^verbatim>\<open>while\<close> body.\<close>

definition stale :: "platform \<Rightarrow> string \<Rightarrow> candidate \<Rightarrow> bool" where
  "stale P st c = (isOld P st c \<and> \<not> isPinned c)"

definition stops :: "run \<Rightarrow> bool" where
  "stops s = ((addedCount s = 0 \<and> noNewTweetsCount s \<ge> 3) \<or> hasReachedStartTime s)"

text \<open>Three stale candidates in a row, starting from a streak of \<open>n\<close>, in a sequence from
  which the pinned candidates older than the boundary have been removed.\<close>

fun streakReaches :: "platform \<Rightarrow> string \<Rightarrow> nat \<Rightarrow> candidate list \<Rightarrow> bool" where
  "streakReaches P st n [] = False"
| "streakReaches P st n (c # cs) =
     (if stale P st c then (n + 1 \<ge> 3 \<or> streakReaches P st (n + 1) cs)
      else streakReaches P st 0 cs)"

definition unpinnedFresh :: "platform \<Rightarrow> string \<Rightarrow> string set \<Rightarrow> candidate list \<Rightarrow> candidate list" where
  "unpinnedFresh P st seen cs = filter (\<lambda>c. \<not> (isOld P st c \<and> isPinned c)) (fresh seen cs)"

text \<open>The output of a run is drawn, in order, from the newly-deduped candidates of the first
  \<open>n\<close> rounds, none of them older than the boundary.\<close>

definition fromDiscovered :: "platform \<Rightarrow> page \<Rightarrow> string \<Rightarrow> string \<Rightarrow> nat \<Rightarrow> run \<Rightarrow> bool" where
  "fromDiscovered P pg uid st n s =
     (\<exists>ks. tweets s = map toTweet ks \<and> subseq ks (fresh {} (discovered pg uid n)) \<and>
           (\<forall>k\<in>set ks. \<not> isOld P st k))"

text \<open>The state after the round that a loop-head state \<open>s\<close> runs, and the state after the
  scroll that follows.\<close>

definition roundAt :: "platform \<Rightarrow> page \<Rightarrow> string \<Rightarrow> string \<Rightarrow> run \<Rightarrow> run" where
  "roundAt P pg uid st s = processRound P st (roundCandidates pg uid (scrollAttempts s)) s"

definition advance :: "run \<Rightarrow> run" where
  "advance s = s\<lparr>scrollAttempts := scrollAttempts s + 1\<rparr>"

text \<open>An image is fetched and written; a string is a single path segment that normalisation
  leaves alone; the reference that the materializer puts at position \<open>i\<close> of a post's image
  list.\<close>

definition downloaded :: "imageWorld \<Rightarrow> nat \<Rightarrow> nat \<Rightarrow> string \<Rightarrow> bool" where
  "downloaded W p index imageUrl =
     (case downloadImageViaPage W p index imageUrl of
        Inl e \<Rightarrow> False
      | Inr buf \<Rightarrow> writeFileError W p index = None)"

definition plainSegment :: "string \<Rightarrow> bool" where
  "plainSegment s = (s \<noteq> [] \<and> \<not> list_ex isSlash s \<and> s \<noteq> ''.'' \<and> s \<noteq> ''..'')"

definition rewritten :: "platform \<Rightarrow> imageWorld \<Rightarrow> nat \<Rightarrow> TweetInfo \<Rightarrow> nat \<Rightarrow> string" where
  "rewritten P W p tweet i =
     (if downloaded W p i (imageUrls tweet ! i)
      then posixJoin (userId tweet)
             (createImageFilename P (dateNow W p i) (time tweet) (i + 1) (imageUrls tweet ! i))
      else imageUrls tweet ! i)"

text \<open>The reading of \<^verbatim>\<open>latestTweetTime\<close> as a maximum: absent for no posts, otherwise the
  \<^verbatim>\<open>time\<close> of a post that is a timestamp and no earlier than the timestamp of any post.\<close>

definition latestIsMax :: "platform \<Rightarrow> TweetInfo list \<Rightarrow> string option \<Rightarrow> bool" where
  "latestIsMax P ts l =
     (case l of
        None \<Rightarrow> ts = []
      | Some s \<Rightarrow>
          (case getTime P s of
             None \<Rightarrow> False
           | Some m \<Rightarrow>
               s \<in> set (map time ts) \<and>
               list_all (\<lambda>y. case getTime P (time y) of None \<Rightarrow> True | Some n \<Rightarrow> n \<le> m) ts))"

text \<open>The hook invocations a job makes when its attempts \<open>a\<close> to \<open>b\<close> fail with the errors
  \<open>errs\<close>: none without a hook, one per failed attempt with one.\<close>

definition hookCalls :: "hook option \<Rightarrow> userConfig \<Rightarrow> (int \<Rightarrow> error) \<Rightarrow> int \<Rightarrow> int \<Rightarrow> hookCall list"
  where
  "hookCalls hk c errs a b =
     (case hk of None \<Rightarrow> [] | Some h \<Rightarrow> map (\<lambda>n. (cfgUserId c, n, errs n)) [a..b])"

section \<open>Worked examples\<close>

text \<open>A rendered article of \<open>uid\<close> with a permalink, an author link and a \<^verbatim>\<open>time\<close> element,
  in which a selector that names the \<^verbatim>\<open>href\<close> of one of the two links finds it (no
  other selector text is put to it); a page that renders \<open>rounds k\<close> in round \<open>k\<close> and never
  fails.\<close>

definition exSelects :: "(string \<times> string) list \<Rightarrow> string \<Rightarrow> bool option" where
  "exSelects links sel =
     Some (list_ex (\<lambda>l. sel = ''a[href='' @ [CHR 0x22] @ fst l @ [CHR 0x22] @ '']'') links)"

definition exAnchors :: "string \<Rightarrow> string \<Rightarrow> (string \<times> string) list" where
  "exAnchors uid statusId =
     [(''/'' @ uid, ''https://x.com/'' @ uid),
      (''/'' @ uid @ ''/status/'' @ statusId, ''https://x.com/'' @ uid @ ''/status/'' @ statusId)]"

definition exArticle :: "string \<Rightarrow> string \<Rightarrow> string \<Rightarrow> bool \<Rightarrow> article" where
  "exArticle uid statusId datetime pinned =
     \<lparr> socialContext = (if pinned then Some ''Pinned'' else None),
       anchors = exAnchors uid statusId,
       selects = exSelects (exAnchors uid statusId),
       timeDatetime = Some datetime,
       tweetText = Some ''hello'',
       photoSrcs = [],
       domThrows = False \<rparr>"

definition exPage :: "(nat \<Rightarrow> article list) \<Rightarrow> page" where
  "exPage rounds =
     \<lparr> newPageError = None, gotoError = None, emptyState = False, waitError = None,
       articlesAt = (\<lambda>k. Inr (rounds k)), scrollError = (\<lambda>k. None), closeError = None \<rparr>"

definition exTweet :: "string \<Rightarrow> string \<Rightarrow> TweetInfo" where
  "exTweet uid datetime =
     \<lparr> userId = uid, textContent = ''hello'', time = datetime, imageUrls = [] \<rparr>"

definition brokenPage :: page where
  "brokenPage = (exPage (\<lambda>k. []))\<lparr>newPageError := Some (Failure ''timeout'')\<rparr>"

definition alicePage :: page where
  "alicePage = exPage (\<lambda>k. [exArticle ''alice'' ''1'' ''2026-01-11T08:00:00.000Z'' False,
                              exArticle ''alice'' ''2'' ''2026-01-12T09:30:00.000Z'' False])"

definition aliceTweets :: "TweetInfo list" where
  "aliceTweets = [exTweet ''alice'' ''2026-01-11T08:00:00.000Z'',
                  exTweet ''alice'' ''2026-01-12T09:30:00.000Z'']"

definition cfgAlice :: userConfig where
  "cfgAlice = \<lparr> cfgUserId = ''alice'', cfgStartTime = ''2026-01-10T00:00:00.000Z'' \<rparr>"

definition cfgBob :: userConfig where
  "cfgBob = \<lparr> cfgUserId = ''bob'', cfgStartTime = ''2026-01-10T00:00:00.000Z'' \<rparr>"

definition aliceResult :: UserTweetsResult where
  "aliceResult = \<lparr> resUserId = ''alice'', resTweets = aliceTweets,
                    latestTweetTime = Some ''2026-01-12T09:30:00.000Z'' \<rparr>"

definition exWorld :: "nat \<Rightarrow> int \<Rightarrow> page" where
  "exWorld i n = (if i = 0 then alicePage else brokenPage)"

definition fivePages :: "int \<Rightarrow> page" where
  "fivePages n = (if n < 5 then brokenPage else alicePage)"

definition throwingHook :: hook where
  "throwingHook uid attempt lastError = Some (Failure ''hook failed'')"

definition fiveOptions :: FetchOptions where
  "fiveOptions = \<lparr> maxRetries = Some 5, beforeRetry = Some throwingHook,
                    downloadImages = None, downloadPath = None \<rparr>"

definition undatedPage :: page where
  "undatedPage = exPage (\<lambda>k. [exArticle ''alice'' ''1'' [] False,
                                exArticle ''alice'' ''2'' ''2026-01-12T09:30:00.000Z'' False])"

definition undatedResult :: UserTweetsResult where
  "undatedResult =
     \<lparr> resUserId = ''alice'',
       resTweets = [exTweet ''alice'' [], exTweet ''alice'' ''2026-01-12T09:30:00.000Z''],
       latestTweetTime = Some [] \<rparr>"

definition idleRun :: run where
  "idleRun = \<lparr> tweets = aliceTweets,
                tweetIds = {''https://x.com/alice/status/1'', ''https://x.com/alice/status/2''},
                scrollAttempts = 3, noNewTweetsCount = 3, hasReachedStartTime = False,
                addedCount = 0, nonPinnedOldTweetCount = 0 \<rparr>"

definition exCandidate :: "string \<Rightarrow> string \<Rightarrow> string \<Rightarrow> bool \<Rightarrow> candidate" where
  "exCandidate uid statusId datetime pinned =
     \<lparr> userId = uid, textContent = ''hello'', time = datetime, imageUrls = [],
       tweetId = ''https://x.com/'' @ uid @ ''/status/'' @ statusId, isPinned = pinned \<rparr>"

definition boundary :: string where
  "boundary = ''2026-01-10T00:00:00.000Z''"

definition scenarioArticles :: "article list" where
  "scenarioArticles =
     [exArticle ''alice'' ''1'' ''2026-01-12T00:00:00.000Z'' False,
      exArticle ''alice'' ''2'' ''2026-01-11T00:00:00.000Z'' False,
      exArticle ''alice'' ''3'' ''2026-01-09T00:00:00.000Z'' False,
      exArticle ''alice'' ''4'' ''2026-01-08T00:00:00.000Z'' False,
      exArticle ''alice'' ''5'' ''2026-01-07T00:00:00.000Z'' False,
      exArticle ''alice'' ''6'' ''2026-01-20T00:00:00.000Z'' True]"

definition scenarioCandidates :: "candidate list" where
  "scenarioCandidates =
     [exCandidate ''alice'' ''1'' ''2026-01-12T00:00:00.000Z'' False,
      exCandidate ''alice'' ''2'' ''2026-01-11T00:00:00.000Z'' False,
      exCandidate ''alice'' ''3'' ''2026-01-09T00:00:00.000Z'' False,
      exCandidate ''alice'' ''4'' ''2026-01-08T00:00:00.000Z'' False,
      exCandidate ''alice'' ''5'' ''2026-01-07T00:00:00.000Z'' False,
      exCandidate ''alice'' ''6'' ''2026-01-20T00:00:00.000Z'' True]"

definition scenarioTweets :: "TweetInfo list" where
  "scenarioTweets = [exTweet ''alice'' ''2026-01-12T00:00:00.000Z'',
                     exTweet ''alice'' ''2026-01-11T00:00:00.000Z'']"

definition stale3 :: "candidate list" where
  "stale3 = [exCandidate ''alice'' ''3'' ''2026-01-09T00:00:00.000Z'' False,
             exCandidate ''alice'' ''4'' ''2026-01-08T00:00:00.000Z'' False,
             exCandidate ''alice'' ''5'' ''2026-01-07T00:00:00.000Z'' False]"

definition oldPinned :: candidate where
  "oldPinned = exCandidate ''alice'' ''7'' ''2026-01-05T00:00:00.000Z'' True"

definition recent :: candidate where
  "recent = exCandidate ''alice'' ''1'' ''2026-01-12T00:00:00.000Z'' False"

definition splitRounds :: "nat \<Rightarrow> article list" where
  "splitRounds k =
     [exArticle ''alice'' ''1'' ''2026-01-12T00:00:00.000Z'' False,
      exArticle ''alice'' ''3'' ''2026-01-09T00:00:00.000Z'' False,
      exArticle ''alice'' ''4'' ''2026-01-08T00:00:00.000Z'' False] @
     (if k = 0 then []
      else [exArticle ''alice'' ''5'' ''2026-01-07T00:00:00.000Z'' False,
            exArticle ''alice'' ''2'' ''2026-01-11T00:00:00.000Z'' False])"

definition afterFirstRound :: run where
  "afterFirstRound = \<lparr> tweets = aliceTweets,
                tweetIds = {''https://x.com/alice/status/1'', ''https://x.com/alice/status/2''},
                scrollAttempts = 1, noNewTweetsCount = 0, hasReachedStartTime = False,
                addedCount = 2, nonPinnedOldTweetCount = 0 \<rparr>"

definition aliceCandidates :: "candidate list" where
  "aliceCandidates = [exCandidate ''alice'' ''1'' ''2026-01-11T08:00:00.000Z'' False,
                      exCandidate ''alice'' ''2'' ''2026-01-12T09:30:00.000Z'' False]"

definition aliceArticles :: "article list" where
  "aliceArticles = [exArticle ''alice'' ''1'' ''2026-01-11T08:00:00.000Z'' False,
                    exArticle ''alice'' ''2'' ''2026-01-12T09:30:00.000Z'' False]"

definition repostArticle :: article where
  "repostArticle = (exArticle ''carol'' ''9'' ''2026-01-12T09:30:00.000Z'' False)"

definition duplicateArticles :: "article list" where
  "duplicateArticles = [exArticle ''alice'' ''1'' ''2026-01-11T08:00:00.000Z'' False,
                        exArticle ''alice'' ''2'' ''2026-01-12T09:30:00.000Z'' False,
                        exArticle ''alice'' ''1'' ''2026-01-13T10:00:00.000Z'' False]"

definition duplicateCandidates :: "candidate list" where
  "duplicateCandidates = [exCandidate ''alice'' ''1'' ''2026-01-11T08:00:00.000Z'' False,
                          exCandidate ''alice'' ''2'' ''2026-01-12T09:30:00.000Z'' False,
                          exCandidate ''alice'' ''1'' ''2026-01-13T10:00:00.000Z'' False]"

definition oldArticles :: "article list" where
  "oldArticles = [exArticle ''alice'' ''1'' ''2020-01-01T00:00:00.000Z'' True,
                  exArticle ''alice'' ''2'' ''2019-03-01T00:00:00.000Z'' False,
                  exArticle ''alice'' ''3'' ''2019-02-01T00:00:00.000Z'' False,
                  exArticle ''alice'' ''4'' ''2019-01-01T00:00:00.000Z'' False,
                  exArticle ''alice'' ''5'' ''2026-01-12T00:00:00.000Z'' False]"

definition cappedPage :: page where
  "cappedPage = alicePage\<lparr>articlesAt := (\<lambda>k. if k < 100 then Inr aliceArticles
                                                 else Inl (Failure ''never asked''))\<rparr>"

definition oldRun :: run where
  "oldRun = \<lparr> tweets = map (exTweet ''alice'')
                  [''2020-01-01T00:00:00.000Z'', ''2019-03-01T00:00:00.000Z'',
                   ''2019-02-01T00:00:00.000Z'', ''2019-01-01T00:00:00.000Z'',
                   ''2026-01-12T00:00:00.000Z''],
               tweetIds = {''https://x.com/alice/status/1'', ''https://x.com/alice/status/2'',
                           ''https://x.com/alice/status/3'', ''https://x.com/alice/status/4'',
                           ''https://x.com/alice/status/5''},
               scrollAttempts = 3, noNewTweetsCount = 3, hasReachedStartTime = False,
               addedCount = 0, nonPinnedOldTweetCount = 0 \<rparr>"

definition enabledOptions :: FetchOptions where
  "enabledOptions = \<lparr> maxRetries = None, beforeRetry = None, downloadImages = Some True,
                       downloadPath = None \<rparr>"

definition disabledOptions :: FetchOptions where
  "disabledOptions = \<lparr> maxRetries = None, beforeRetry = None, downloadImages = Some False,
                        downloadPath = Some ''downloads'' \<rparr>"

definition okResponse :: response where
  "okResponse = \<lparr> status = 200, buffer = Inr ''bytes'' \<rparr>"

definition notFound :: response where
  "notFound = \<lparr> status = 404, buffer = Inr [] \<rparr>"

definition cachedResponse :: response where
  "cachedResponse = \<lparr> status = 0, buffer = Inr ''bytes'' \<rparr>"

text \<open>A world in which every directory and the page are obtained, the clock advances by one
  second from one image to the next, the second image of every post is answered with
  \<open>404\<close>, the third with status \<open>0\<close>, and every write succeeds.\<close>

definition exImageWorld :: imageWorld where
  "exImageWorld =
     \<lparr> mkdirRootError = None, downloadPageError = None, mkdirUserError = (\<lambda>p. None),
       dateNow = (\<lambda>p i. 1700000000123 + 1000 * int i),
       responseFor = (\<lambda>p i url. if i = 1 then Inr notFound
                                  else if i = 2 then Inr cachedResponse else Inr okResponse),
       writeFileError = (\<lambda>p i. None) \<rparr>"

definition readOnlyWorld :: imageWorld where
  "readOnlyWorld = exImageWorld\<lparr>mkdirRootError := Some (Failure ''EACCES''),
                                 mkdirUserError := (\<lambda>p. Some (Failure ''EACCES''))\<rparr>"

definition noPageWorld :: imageWorld where
  "noPageWorld = exImageWorld\<lparr>downloadPageError := Some (Failure ''no page'')\<rparr>"

definition secondDirFails :: imageWorld where
  "secondDirFails =
     exImageWorld\<lparr>mkdirUserError := (\<lambda>p. if p = 1 then Some (Failure ''EACCES'') else None)\<rparr>"

definition photoUrlList :: "string list" where
  "photoUrlList = [''https://pbs.twimg.com/media/a.png'', ''https://pbs.twimg.com/media/b.jpg'',
                   ''https://pbs.twimg.com/media/c?format=jpg'']"

definition photoTweet :: TweetInfo where
  "photoTweet = \<lparr> userId = ''alice'', textContent = ''hello'', time = ''2026-01-12T00:00:00.000Z'',
                   imageUrls = photoUrlList \<rparr>"

definition undatedPhotoTweet :: TweetInfo where
  "undatedPhotoTweet = photoTweet\<lparr>time := []\<rparr>"

section \<open>The collector\<close>

subsection \<open>The loop and its invariant rule\<close>

lemma processTweets_scrollAttempts [simp]:
  "scrollAttempts (processTweets P st cs s) = scrollAttempts s"
  by (induction cs arbitrary: s) (simp_all add: Let_def)

lemma processRound_scrollAttempts [simp]:
  "scrollAttempts (processRound P st cs s) = scrollAttempts s"
  by (simp add: processRound_def Let_def)

lemma scrollLoop_exit:
  "\<not> (scrollAttempts s < maxScrollAttempts \<and> \<not> hasReachedStartTime s) \<Longrightarrow>
     scrollLoop P pg uid st s = Inr s"
  by (subst scrollLoop.simps) auto

lemma scrollLoop_step:
  assumes "scrollAttempts s < maxScrollAttempts" and "\<not> hasReachedStartTime s"
    and "newTweetsAt pg uid (scrollAttempts s) = Inr cs"
  shows "scrollLoop P pg uid st s =
     (let s1 = processRound P st cs s in
      if stops s1 then Inr s1
      else (case scrollError pg (scrollAttempts s) of
              Some e \<Rightarrow> Inl e
            | None \<Rightarrow> scrollLoop P pg uid st (s1\<lparr>scrollAttempts := scrollAttempts s + 1\<rparr>)))"
  using assms
  by (auto simp add: scrollLoop.simps [of P pg uid st s] Let_def stops_def split: option.splits)

lemma scrollLoop_failed_round:
  assumes "scrollAttempts s < maxScrollAttempts" and "\<not> hasReachedStartTime s"
    and "newTweetsAt pg uid (scrollAttempts s) = Inl e"
  shows "scrollLoop P pg uid st s = Inl e"
  using assms by (simp add: scrollLoop.simps [of P pg uid st s])

lemma scrollLoop_rule:
  assumes run: "scrollLoop P pg uid st s = Inr r"
    and init: "I s"
    and exit: "\<And>s. I s \<Longrightarrow> \<not> (scrollAttempts s < maxScrollAttempts \<and> \<not> hasReachedStartTime s) \<Longrightarrow> Q s"
    and stop: "\<And>s cs. I s \<Longrightarrow> scrollAttempts s < maxScrollAttempts \<Longrightarrow> \<not> hasReachedStartTime s \<Longrightarrow>
        newTweetsAt pg uid (scrollAttempts s) = Inr cs \<Longrightarrow>
        stops (processRound P st cs s) \<Longrightarrow>
        Q (processRound P st cs s)"
    and step: "\<And>s cs. I s \<Longrightarrow> scrollAttempts s < maxScrollAttempts \<Longrightarrow> \<not> hasReachedStartTime s \<Longrightarrow>
        newTweetsAt pg uid (scrollAttempts s) = Inr cs \<Longrightarrow>
        \<not> stops (processRound P st cs s) \<Longrightarrow>
        I ((processRound P st cs s)\<lparr>scrollAttempts := scrollAttempts s + 1\<rparr>)"
  shows "Q r"
  using run init
proof (induction "maxScrollAttempts - scrollAttempts s" arbitrary: s rule: less_induct)
  case less
  show ?case
  proof (cases "scrollAttempts s < maxScrollAttempts \<and> \<not> hasReachedStartTime s")
    case False
    then have "r = s" using less.prems(1) by (simp add: scrollLoop_exit)
    then show ?thesis using exit [OF less.prems(2) False] by simp
  next
    case True
    then have lt: "scrollAttempts s < maxScrollAttempts" and nr: "\<not> hasReachedStartTime s" by auto
    show ?thesis
    proof (cases "newTweetsAt pg uid (scrollAttempts s)")
      case (Inl e)
      then show ?thesis using less.prems(1) by (simp add: scrollLoop_failed_round [OF lt nr])
    next
      case (Inr cs)
      let ?s1 = "processRound P st cs s"
      note unfold = scrollLoop_step [OF lt nr Inr, of P st]
      show ?thesis
      proof (cases "stops ?s1")
        case True
        then have "r = ?s1" using less.prems(1) unfold by (simp add: Let_def)
        then show ?thesis using stop [OF less.prems(2) lt nr Inr True] by simp
      next
        case False
        let ?s2 = "?s1\<lparr>scrollAttempts := scrollAttempts s + 1\<rparr>"
        from False less.prems(1) unfold have next_run: "scrollLoop P pg uid st ?s2 = Inr r"
          by (simp add: Let_def split: option.splits)
        have "maxScrollAttempts - scrollAttempts ?s2 < maxScrollAttempts - scrollAttempts s"
          using lt by simp
        then show ?thesis
          using less.hyps next_run step [OF less.prems(2) lt nr Inr False] by blast
      qed
    qed
  qed
qed

subsection \<open>The candidates of one round\<close>

lemma processTweets_noNew [simp]:
  "noNewTweetsCount (processTweets P st cs s) = noNewTweetsCount s"
  by (induction cs arbitrary: s) (simp_all add: Let_def)

lemma processTweets_ids_member:
  "x \<in> tweetIds s \<Longrightarrow> x \<in> tweetIds (processTweets P st cs s)"
  by (induction cs arbitrary: s) (simp_all add: Let_def)

lemma processTweets_ids_mono: "tweetIds s \<subseteq> tweetIds (processTweets P st cs s)"
  using processTweets_ids_member by blast

lemma processTweets_ids_origin:
  "x \<in> tweetIds (processTweets P st cs s) \<Longrightarrow> x \<in> tweetIds s \<or> x \<in> tweetId ` set cs"
proof (induction cs arbitrary: s)
  case Nil
  then show ?case by simp
next
  case (Cons c cs)
  show ?case
    using Cons.prems by (auto simp add: Let_def split: if_splits dest!: Cons.IH)
qed

lemma processTweets_ids_upper:
  "tweetIds (processTweets P st cs s) \<subseteq> tweetIds s \<union> tweetId ` set cs"
  using processTweets_ids_origin by blast

lemma processTweets_reached_mono:
  "hasReachedStartTime s \<Longrightarrow> hasReachedStartTime (processTweets P st cs s)"
  by (induction cs arbitrary: s) (simp_all add: Let_def)

lemma processTweets_ids_full:
  "\<not> hasReachedStartTime (processTweets P st cs s) \<Longrightarrow>
     tweetIds (processTweets P st cs s) = tweetIds s \<union> tweetId ` set cs"
proof (induction cs arbitrary: s)
  case Nil
  show ?case by simp
next
  case (Cons c cs)
  show ?case
  proof (cases "tweetId c \<in> tweetIds s")
    case True
    then show ?thesis using Cons.IH [of s] Cons.prems by auto
  next
    case new: False
    let ?s1 = "s\<lparr>tweetIds := insert (tweetId c) (tweetIds s)\<rparr>"
    show ?thesis
    proof (cases "isOld P st c")
      case False
      let ?s3 = "?s1\<lparr>nonPinnedOldTweetCount := 0, tweets := tweets ?s1 @ [toTweet c],
                      addedCount := addedCount ?s1 + 1\<rparr>"
      from new False Cons.prems have "\<not> hasReachedStartTime (processTweets P st cs ?s3)"
        by (simp add: Let_def)
      from Cons.IH [OF this] new False show ?thesis by (simp add: Let_def)
    next
      case old: True
      show ?thesis
      proof (cases "isPinned c")
        case True
        from new old True Cons.prems have "\<not> hasReachedStartTime (processTweets P st cs ?s1)"
          by (simp add: Let_def)
        from Cons.IH [OF this] new old True show ?thesis by (simp add: Let_def)
      next
        case False
        let ?s2 = "?s1\<lparr>nonPinnedOldTweetCount := nonPinnedOldTweetCount ?s1 + 1\<rparr>"
        from new old False Cons.prems have nb: "\<not> 3 \<le> nonPinnedOldTweetCount ?s2"
          by (auto simp add: Let_def)
        with new old False Cons.prems have "\<not> hasReachedStartTime (processTweets P st cs ?s2)"
          by (simp add: Let_def)
        from Cons.IH [OF this] new old False nb show ?thesis by (simp add: Let_def)
      qed
    qed
  qed
qed

lemma fresh_subset: "set (fresh seen cs) \<subseteq> set cs"
  by (induction cs arbitrary: seen) auto

lemma fresh_ids_disjoint: "c \<in> set (fresh seen cs) \<Longrightarrow> tweetId c \<notin> seen"
  by (induction cs arbitrary: seen) (auto split: if_splits)

lemma fresh_distinct: "distinct (map tweetId (fresh seen cs))"
proof (induction cs arbitrary: seen)
  case Nil
  show ?case by simp
next
  case (Cons c cs)
  show ?case
    using Cons.IH by (auto dest: fresh_ids_disjoint)
qed

lemma fresh_append:
  "fresh seen (xs @ ys) = fresh seen xs @ fresh (seen \<union> tweetId ` set xs) ys"
  by (induction xs arbitrary: seen) (simp_all add: insert_absorb)

lemma fresh_seen_absorb: "tweetId c \<in> seen \<Longrightarrow> fresh seen (xs @ c # ys) = fresh seen (xs @ ys)"
  by (simp add: fresh_append)

lemma processTweets_provenance:
  "\<exists>ks. tweets (processTweets P st cs s) = tweets s @ map toTweet ks \<and>
        subseq ks (fresh (tweetIds s) cs) \<and>
        addedCount (processTweets P st cs s) = addedCount s + length ks \<and>
        (\<forall>k\<in>set ks. \<not> isOld P st k)"
proof (induction cs arbitrary: s)
  case Nil
  show ?case by simp
next
  case (Cons c cs)
  show ?case
  proof (cases "tweetId c \<in> tweetIds s")
    case True
    then show ?thesis using Cons.IH [of s] by simp
  next
    case new: False
    let ?s1 = "s\<lparr>tweetIds := insert (tweetId c) (tweetIds s)\<rparr>"
    show ?thesis
    proof (cases "isOld P st c")
      case False
      let ?s3 = "?s1\<lparr>nonPinnedOldTweetCount := 0, tweets := tweets ?s1 @ [toTweet c],
                      addedCount := addedCount ?s1 + 1\<rparr>"
      obtain ks where ks: "tweets (processTweets P st cs ?s3) = tweets ?s3 @ map toTweet ks"
          "subseq ks (fresh (tweetIds ?s3) cs)"
          "addedCount (processTweets P st cs ?s3) = addedCount ?s3 + length ks"
          "\<forall>k\<in>set ks. \<not> isOld P st k"
        using Cons.IH [of ?s3] by blast
      have "processTweets P st (c # cs) s = processTweets P st cs ?s3"
        using new False by (simp add: Let_def)
      then show ?thesis
        using ks new False by (intro exI [of _ "c # ks"]) simp
    next
      case old: True
      show ?thesis
      proof (cases "isPinned c")
        case True
        obtain ks where ks: "tweets (processTweets P st cs ?s1) = tweets ?s1 @ map toTweet ks"
            "subseq ks (fresh (tweetIds ?s1) cs)"
            "addedCount (processTweets P st cs ?s1) = addedCount ?s1 + length ks"
            "\<forall>k\<in>set ks. \<not> isOld P st k"
          using Cons.IH [of ?s1] by blast
        have "processTweets P st (c # cs) s = processTweets P st cs ?s1"
          using new old True by (simp add: Let_def)
        then show ?thesis
          using ks new by (intro exI [of _ ks]) (simp add: list_emb_Cons)
      next
        case False
        let ?s2 = "?s1\<lparr>nonPinnedOldTweetCount := nonPinnedOldTweetCount ?s1 + 1\<rparr>"
        show ?thesis
        proof (cases "3 \<le> nonPinnedOldTweetCount ?s2")
          case True
          then have "processTweets P st (c # cs) s = ?s2\<lparr>hasReachedStartTime := True\<rparr>"
            using new old False by (simp add: Let_def)
          then show ?thesis by (intro exI [of _ "[]"]) simp
        next
          case nb: False
          obtain ks where ks: "tweets (processTweets P st cs ?s2) = tweets ?s2 @ map toTweet ks"
              "subseq ks (fresh (tweetIds ?s2) cs)"
              "addedCount (processTweets P st cs ?s2) = addedCount ?s2 + length ks"
              "\<forall>k\<in>set ks. \<not> isOld P st k"
            using Cons.IH [of ?s2] by blast
          have "processTweets P st (c # cs) s = processTweets P st cs ?s2"
            using new old False nb by (simp add: Let_def)
          then show ?thesis
            using ks new by (intro exI [of _ ks]) (simp add: list_emb_Cons)
        qed
      qed
    qed
  qed
qed

lemma processTweets_reached_iff:
  "\<not> hasReachedStartTime s \<Longrightarrow>
     hasReachedStartTime (processTweets P st cs s)
       = streakReaches P st (nonPinnedOldTweetCount s) (unpinnedFresh P st (tweetIds s) cs)"
proof (induction cs arbitrary: s)
  case Nil
  then show ?case by (simp add: unpinnedFresh_def)
next
  case (Cons c cs)
  show ?case
  proof (cases "tweetId c \<in> tweetIds s")
    case True
    then show ?thesis using Cons.IH [of s] Cons.prems by (simp add: unpinnedFresh_def)
  next
    case new: False
    let ?s1 = "s\<lparr>tweetIds := insert (tweetId c) (tweetIds s)\<rparr>"
    show ?thesis
    proof (cases "isOld P st c")
      case False
      let ?s3 = "?s1\<lparr>nonPinnedOldTweetCount := 0, tweets := tweets ?s1 @ [toTweet c],
                      addedCount := addedCount ?s1 + 1\<rparr>"
      show ?thesis
        using Cons.IH [of ?s3] Cons.prems new False
        by (simp add: Let_def unpinnedFresh_def stale_def)
    next
      case old: True
      show ?thesis
      proof (cases "isPinned c")
        case True
        show ?thesis
          using Cons.IH [of ?s1] Cons.prems new old True
          by (simp add: Let_def unpinnedFresh_def)
      next
        case False
        let ?s2 = "?s1\<lparr>nonPinnedOldTweetCount := nonPinnedOldTweetCount ?s1 + 1\<rparr>"
        show ?thesis
          using Cons.IH [of ?s2] Cons.prems new old False
          by (simp add: Let_def unpinnedFresh_def stale_def)
      qed
    qed
  qed
qed

lemma streakReaches_three:
  "stale P st a \<Longrightarrow> stale P st b \<Longrightarrow> stale P st c \<Longrightarrow>
     streakReaches P st n (xs @ a # b # c # ys)"
  by (induction xs arbitrary: n) simp_all

lemma processRound_reached_iff:
  "\<not> hasReachedStartTime s \<Longrightarrow>
     hasReachedStartTime (processRound P st cs s)
       = streakReaches P st 0 (unpinnedFresh P st (tweetIds s) cs)"
  using processTweets_reached_iff [of "s\<lparr>addedCount := 0, nonPinnedOldTweetCount := 0\<rparr>" P st cs]
  by (simp add: processRound_def Let_def)

lemma isOld_no_boundary [simp]: "isOld P [] c = False"
  by (simp add: isOld_def)

lemma processTweets_no_boundary:
  "tweets (processTweets P [] cs s) = tweets s @ map toTweet (fresh (tweetIds s) cs) \<and>
   tweetIds (processTweets P [] cs s) = tweetIds s \<union> tweetId ` set cs \<and>
   addedCount (processTweets P [] cs s) = addedCount s + length (fresh (tweetIds s) cs) \<and>
   hasReachedStartTime (processTweets P [] cs s) = hasReachedStartTime s"
  by (induction cs arbitrary: s) (auto simp add: Let_def)

lemma processRound_fields:
  "tweets (processRound P st cs s)
     = tweets (processTweets P st cs (s\<lparr>addedCount := 0, nonPinnedOldTweetCount := 0\<rparr>))"
  "tweetIds (processRound P st cs s)
     = tweetIds (processTweets P st cs (s\<lparr>addedCount := 0, nonPinnedOldTweetCount := 0\<rparr>))"
  "hasReachedStartTime (processRound P st cs s)
     = hasReachedStartTime (processTweets P st cs (s\<lparr>addedCount := 0, nonPinnedOldTweetCount := 0\<rparr>))"
  "addedCount (processRound P st cs s)
     = addedCount (processTweets P st cs (s\<lparr>addedCount := 0, nonPinnedOldTweetCount := 0\<rparr>))"
  by (simp_all add: processRound_def Let_def)

lemma processRound_noNew:
  "noNewTweetsCount (processRound P st cs s)
     = (if addedCount (processRound P st cs s) = 0 then noNewTweetsCount s + 1 else 0)"
  by (simp add: processRound_def Let_def)

lemma processRound_provenance:
  "\<exists>ks. tweets (processRound P st cs s) = tweets s @ map toTweet ks \<and>
        subseq ks (fresh (tweetIds s) cs) \<and>
        addedCount (processRound P st cs s) = length ks \<and>
        (\<forall>k\<in>set ks. \<not> isOld P st k)"
  using processTweets_provenance [of P st cs "s\<lparr>addedCount := 0, nonPinnedOldTweetCount := 0\<rparr>"]
  by (simp add: processRound_fields)

lemma processRound_ids_mono: "tweetIds s \<subseteq> tweetIds (processRound P st cs s)"
  using processTweets_ids_mono [of "s\<lparr>addedCount := 0, nonPinnedOldTweetCount := 0\<rparr>" P st cs]
  by (simp add: processRound_fields)

lemma processRound_ids_upper:
  "tweetIds (processRound P st cs s) \<subseteq> tweetIds s \<union> tweetId ` set cs"
  using processTweets_ids_upper [of P st cs "s\<lparr>addedCount := 0, nonPinnedOldTweetCount := 0\<rparr>"]
  by (simp add: processRound_fields)

lemma processRound_ids_full:
  "\<not> hasReachedStartTime (processRound P st cs s) \<Longrightarrow>
     tweetIds (processRound P st cs s) = tweetIds s \<union> tweetId ` set cs"
  using processTweets_ids_full [of P st cs "s\<lparr>addedCount := 0, nonPinnedOldTweetCount := 0\<rparr>"]
  by (simp add: processRound_fields)

lemma processRound_idle_keeps_tweets:
  "addedCount (processRound P st cs s) = 0 \<Longrightarrow> tweets (processRound P st cs s) = tweets s"
  using processRound_provenance [of P st cs s] by auto

lemma discovered_Suc:
  "newTweetsAt pg uid k = Inr cs \<Longrightarrow>
     discovered pg uid (Suc k) = discovered pg uid k @ cs"
  by (simp add: discovered_def roundCandidates_def)

lemma scrollLoop_stop_reason:
  assumes "scrollLoop P pg uid st s = Inr r"
    and "scrollAttempts s \<le> maxScrollAttempts" and "noNewTweetsCount s \<le> 2"
  shows "scrollAttempts r \<le> maxScrollAttempts \<and> noNewTweetsCount r \<le> 3 \<and>
         (hasReachedStartTime r \<or> (addedCount r = 0 \<and> noNewTweetsCount r = 3) \<or>
          scrollAttempts r = maxScrollAttempts) \<and>
         ((hasReachedStartTime r \<and> \<not> hasReachedStartTime s \<or> noNewTweetsCount r = 3)
            \<longrightarrow> scrollAttempts r < maxScrollAttempts)"
proof (rule scrollLoop_rule [OF assms(1), where
      I = "\<lambda>s'. scrollAttempts s' \<le> maxScrollAttempts \<and> noNewTweetsCount s' \<le> 2 \<and>
                (hasReachedStartTime s' \<longrightarrow> s' = s)"])
  show "scrollAttempts s \<le> maxScrollAttempts \<and> noNewTweetsCount s \<le> 2 \<and>
        (hasReachedStartTime s \<longrightarrow> s = s)"
    using assms(2,3) by simp
next
  fix s'
  assume "scrollAttempts s' \<le> maxScrollAttempts \<and> noNewTweetsCount s' \<le> 2 \<and>
          (hasReachedStartTime s' \<longrightarrow> s' = s)"
    and "\<not> (scrollAttempts s' < maxScrollAttempts \<and> \<not> hasReachedStartTime s')"
  then show "scrollAttempts s' \<le> maxScrollAttempts \<and> noNewTweetsCount s' \<le> 3 \<and>
         (hasReachedStartTime s' \<or> (addedCount s' = 0 \<and> noNewTweetsCount s' = 3) \<or>
          scrollAttempts s' = maxScrollAttempts) \<and>
         ((hasReachedStartTime s' \<and> \<not> hasReachedStartTime s \<or> noNewTweetsCount s' = 3)
            \<longrightarrow> scrollAttempts s' < maxScrollAttempts)"
    by auto
next
  fix s' cs
  let ?s1 = "processRound P st cs s'"
  assume I: "scrollAttempts s' \<le> maxScrollAttempts \<and> noNewTweetsCount s' \<le> 2 \<and>
          (hasReachedStartTime s' \<longrightarrow> s' = s)"
    and lt: "scrollAttempts s' < maxScrollAttempts" and "\<not> hasReachedStartTime s'"
    and "newTweetsAt pg uid (scrollAttempts s') = Inr cs" and "stops ?s1"
  then show "scrollAttempts ?s1 \<le> maxScrollAttempts \<and> noNewTweetsCount ?s1 \<le> 3 \<and>
         (hasReachedStartTime ?s1 \<or> (addedCount ?s1 = 0 \<and> noNewTweetsCount ?s1 = 3) \<or>
          scrollAttempts ?s1 = maxScrollAttempts) \<and>
         ((hasReachedStartTime ?s1 \<and> \<not> hasReachedStartTime s \<or> noNewTweetsCount ?s1 = 3)
            \<longrightarrow> scrollAttempts ?s1 < maxScrollAttempts)"
    using processRound_noNew [of P st cs s']
    by (auto simp add: stops_def split: if_splits)
next
  fix s' cs
  let ?s1 = "processRound P st cs s'"
  assume I: "scrollAttempts s' \<le> maxScrollAttempts \<and> noNewTweetsCount s' \<le> 2 \<and>
          (hasReachedStartTime s' \<longrightarrow> s' = s)"
    and lt: "scrollAttempts s' < maxScrollAttempts" and "\<not> hasReachedStartTime s'"
    and "newTweetsAt pg uid (scrollAttempts s') = Inr cs" and "\<not> stops ?s1"
  then show "scrollAttempts (?s1\<lparr>scrollAttempts := scrollAttempts s' + 1\<rparr>) \<le> maxScrollAttempts \<and>
        noNewTweetsCount (?s1\<lparr>scrollAttempts := scrollAttempts s' + 1\<rparr>) \<le> 2 \<and>
        (hasReachedStartTime (?s1\<lparr>scrollAttempts := scrollAttempts s' + 1\<rparr>) \<longrightarrow>
           ?s1\<lparr>scrollAttempts := scrollAttempts s' + 1\<rparr> = s)"
    using processRound_noNew [of P st cs s']
    by (auto simp add: stops_def split: if_splits)
qed

subsection \<open>The whole run\<close>

lemma fromDiscovered_round:
  assumes prev: "fromDiscovered P pg uid st k s"
    and ids: "tweetIds s = tweetId ` set (discovered pg uid k)"
    and arts: "newTweetsAt pg uid k = Inr cs"
  shows "fromDiscovered P pg uid st (k + 1) (processRound P st cs s)"
proof -
  let ?cs = cs
  obtain ks where ks: "tweets s = map toTweet ks" "subseq ks (fresh {} (discovered pg uid k))"
      "\<forall>k\<in>set ks. \<not> isOld P st k"
    using prev unfolding fromDiscovered_def by blast
  obtain ks' where ks': "tweets (processRound P st ?cs s) = tweets s @ map toTweet ks'"
      "subseq ks' (fresh (tweetIds s) ?cs)" "\<forall>k\<in>set ks'. \<not> isOld P st k"
    using processRound_provenance [of P st ?cs s] by blast
  have "fresh {} (discovered pg uid (k + 1))
          = fresh {} (discovered pg uid k) @ fresh (tweetIds s) ?cs"
    by (simp add: discovered_Suc [OF arts] fresh_append ids)
  moreover have "subseq (ks @ ks') (fresh {} (discovered pg uid k) @ fresh (tweetIds s) ?cs)"
    using ks(2) ks'(2) by (rule list_emb_append_mono)
  ultimately show ?thesis
    unfolding fromDiscovered_def
    using ks(1,3) ks'(1,3) by (intro exI [of _ "ks @ ks'"]) auto
qed

lemma scrollLoop_provenance:
  assumes "scrollLoop P pg uid st initialRun = Inr r"
  shows "\<exists>n\<le>maxScrollAttempts. fromDiscovered P pg uid st n r \<and>
           tweetIds r \<subseteq> tweetId ` set (discovered pg uid n) \<and>
           (\<forall>k<n. \<exists>cs. newTweetsAt pg uid k = Inr cs)"
proof (rule scrollLoop_rule [OF assms, where
      I = "\<lambda>s. scrollAttempts s \<le> maxScrollAttempts \<and>
               fromDiscovered P pg uid st (scrollAttempts s) s \<and>
               tweetIds s = tweetId ` set (discovered pg uid (scrollAttempts s)) \<and>
               (\<forall>k<scrollAttempts s. \<exists>cs. newTweetsAt pg uid k = Inr cs)"])
  show "scrollAttempts initialRun \<le> maxScrollAttempts \<and>
        fromDiscovered P pg uid st (scrollAttempts initialRun) initialRun \<and>
        tweetIds initialRun = tweetId ` set (discovered pg uid (scrollAttempts initialRun)) \<and>
        (\<forall>k<scrollAttempts initialRun. \<exists>cs. newTweetsAt pg uid k = Inr cs)"
    by (simp add: initialRun_def fromDiscovered_def discovered_def)
next
  fix s
  assume "scrollAttempts s \<le> maxScrollAttempts \<and>
          fromDiscovered P pg uid st (scrollAttempts s) s \<and>
          tweetIds s = tweetId ` set (discovered pg uid (scrollAttempts s)) \<and>
          (\<forall>k<scrollAttempts s. \<exists>cs. newTweetsAt pg uid k = Inr cs)"
  then show "\<exists>n\<le>maxScrollAttempts. fromDiscovered P pg uid st n s \<and>
           tweetIds s \<subseteq> tweetId ` set (discovered pg uid n) \<and>
           (\<forall>k<n. \<exists>cs. newTweetsAt pg uid k = Inr cs)"
    by (intro exI [of _ "scrollAttempts s"]) simp
next
  fix s cs
  let ?s1 = "processRound P st cs s"
  assume I: "scrollAttempts s \<le> maxScrollAttempts \<and>
          fromDiscovered P pg uid st (scrollAttempts s) s \<and>
          tweetIds s = tweetId ` set (discovered pg uid (scrollAttempts s)) \<and>
          (\<forall>k<scrollAttempts s. \<exists>cs. newTweetsAt pg uid k = Inr cs)"
    and lt: "scrollAttempts s < maxScrollAttempts"
    and arts: "newTweetsAt pg uid (scrollAttempts s) = Inr cs"
  have fd: "fromDiscovered P pg uid st (scrollAttempts s + 1) ?s1"
    using I arts by (intro fromDiscovered_round) simp_all
  have ids: "tweetIds ?s1 \<subseteq> tweetId ` set (discovered pg uid (scrollAttempts s + 1))"
    using processRound_ids_upper [of P st cs s] I
    by (auto simp add: discovered_Suc [OF arts])
  have prev: "\<forall>k<scrollAttempts s + 1. \<exists>cs. newTweetsAt pg uid k = Inr cs"
    using I arts by (auto simp add: less_Suc_eq)
  show "\<exists>n\<le>maxScrollAttempts. fromDiscovered P pg uid st n ?s1 \<and>
           tweetIds ?s1 \<subseteq> tweetId ` set (discovered pg uid n) \<and>
           (\<forall>k<n. \<exists>cs. newTweetsAt pg uid k = Inr cs)"
    using fd ids prev lt by (intro exI [of _ "scrollAttempts s + 1"]) simp
  assume "\<not> stops ?s1"
  then have "\<not> hasReachedStartTime ?s1" by (simp add: stops_def)
  then have full: "tweetIds ?s1 = tweetId ` set (discovered pg uid (scrollAttempts s + 1))"
    using processRound_ids_full [of P st cs s] I
    by (auto simp add: discovered_Suc [OF arts])
  show "scrollAttempts (?s1\<lparr>scrollAttempts := scrollAttempts s + 1\<rparr>) \<le> maxScrollAttempts \<and>
        fromDiscovered P pg uid st (scrollAttempts (?s1\<lparr>scrollAttempts := scrollAttempts s + 1\<rparr>))
          (?s1\<lparr>scrollAttempts := scrollAttempts s + 1\<rparr>) \<and>
        tweetIds (?s1\<lparr>scrollAttempts := scrollAttempts s + 1\<rparr>)
          = tweetId ` set (discovered pg uid
              (scrollAttempts (?s1\<lparr>scrollAttempts := scrollAttempts s + 1\<rparr>))) \<and>
        (\<forall>k<scrollAttempts (?s1\<lparr>scrollAttempts := scrollAttempts s + 1\<rparr>).
            \<exists>cs. newTweetsAt pg uid k = Inr cs)"
    using fd full prev lt by (simp add: fromDiscovered_def)
qed

lemma scrollLoop_ids_mono:
  assumes "scrollLoop P pg uid st s = Inr r"
  shows "tweetIds s \<subseteq> tweetIds r"
proof (rule scrollLoop_rule [OF assms, where I = "\<lambda>s'. tweetIds s \<subseteq> tweetIds s'"])
  show "tweetIds s \<subseteq> tweetIds s" by simp
next
  fix s' :: run assume "tweetIds s \<subseteq> tweetIds s'" then show "tweetIds s \<subseteq> tweetIds s'" .
next
  fix s' :: run and cs
  assume "tweetIds s \<subseteq> tweetIds s'"
  then show "tweetIds s \<subseteq> tweetIds (processRound P st cs s')"
    using processRound_ids_mono [of s' P st cs] by blast
next
  fix s' :: run and cs
  assume "tweetIds s \<subseteq> tweetIds s'"
  then show "tweetIds s \<subseteq> tweetIds
      ((processRound P st cs s')\<lparr>scrollAttempts := scrollAttempts s' + 1\<rparr>)"
    using processRound_ids_mono [of s' P st cs] by auto
qed

lemma processTweets_seen_skipped:
  "tweetId c' \<in> tweetIds s \<Longrightarrow>
     processTweets P st (ys @ c' # zs) s = processTweets P st (ys @ zs) s"
  by (induction ys arbitrary: s) (simp_all add: Let_def)

lemma processTweets_duplicate:
  "tweetId c' = tweetId c \<Longrightarrow>
     processTweets P st (xs @ c # ys @ c' # zs) s = processTweets P st (xs @ c # ys @ zs) s"
proof (induction xs arbitrary: s)
  case Nil
  then show ?case by (simp add: Let_def processTweets_seen_skipped)
next
  case (Cons x xs)
  then show ?case by (simp add: Let_def)
qed

lemma processRound_no_boundary:
  "tweets (processRound P [] cs s) = tweets s @ map toTweet (fresh (tweetIds s) cs) \<and>
   tweetIds (processRound P [] cs s) = tweetIds s \<union> tweetId ` set cs \<and>
   addedCount (processRound P [] cs s) = length (fresh (tweetIds s) cs) \<and>
   hasReachedStartTime (processRound P [] cs s) = hasReachedStartTime s"
  using processTweets_no_boundary [of P cs "s\<lparr>addedCount := 0, nonPinnedOldTweetCount := 0\<rparr>"]
  by (simp add: processRound_fields)

lemma scrollLoop_no_boundary:
  assumes "scrollLoop P pg uid [] initialRun = Inr r"
  shows "\<not> hasReachedStartTime r \<and>
         (\<exists>n\<le>maxScrollAttempts. tweets r = map toTweet (fresh {} (discovered pg uid n)))"
proof (rule scrollLoop_rule [OF assms, where
      I = "\<lambda>s. \<not> hasReachedStartTime s \<and> scrollAttempts s \<le> maxScrollAttempts \<and>
               tweetIds s = tweetId ` set (discovered pg uid (scrollAttempts s)) \<and>
               tweets s = map toTweet (fresh {} (discovered pg uid (scrollAttempts s)))"])
  show "\<not> hasReachedStartTime initialRun \<and> scrollAttempts initialRun \<le> maxScrollAttempts \<and>
        tweetIds initialRun = tweetId ` set (discovered pg uid (scrollAttempts initialRun)) \<and>
        tweets initialRun = map toTweet (fresh {} (discovered pg uid (scrollAttempts initialRun)))"
    by (simp add: initialRun_def discovered_def)
next
  fix s :: run
  assume "\<not> hasReachedStartTime s \<and> scrollAttempts s \<le> maxScrollAttempts \<and>
          tweetIds s = tweetId ` set (discovered pg uid (scrollAttempts s)) \<and>
          tweets s = map toTweet (fresh {} (discovered pg uid (scrollAttempts s)))"
  then show "\<not> hasReachedStartTime s \<and>
         (\<exists>n\<le>maxScrollAttempts. tweets s = map toTweet (fresh {} (discovered pg uid n)))"
    by auto
next
  fix s :: run and cs
  let ?s1 = "processRound P [] cs s"
  assume I: "\<not> hasReachedStartTime s \<and> scrollAttempts s \<le> maxScrollAttempts \<and>
          tweetIds s = tweetId ` set (discovered pg uid (scrollAttempts s)) \<and>
          tweets s = map toTweet (fresh {} (discovered pg uid (scrollAttempts s)))"
    and lt: "scrollAttempts s < maxScrollAttempts"
    and arts: "newTweetsAt pg uid (scrollAttempts s) = Inr cs"
  have tw: "tweets ?s1 = map toTweet (fresh {} (discovered pg uid (Suc (scrollAttempts s))))"
    using I processRound_no_boundary [of P cs s]
    by (simp add: discovered_Suc [OF arts] fresh_append)
  have ids: "tweetIds ?s1 = tweetId ` set (discovered pg uid (Suc (scrollAttempts s)))"
    using I processRound_no_boundary [of P cs s]
    by (simp add: discovered_Suc [OF arts] image_Un)
  have nr: "\<not> hasReachedStartTime ?s1"
    using I processRound_no_boundary [of P cs s] by simp
  show "\<not> hasReachedStartTime ?s1 \<and>
         (\<exists>n\<le>maxScrollAttempts. tweets ?s1 = map toTweet (fresh {} (discovered pg uid n)))"
    using nr tw lt by (auto intro!: exI [of _ "Suc (scrollAttempts s)"])
  show "\<not> hasReachedStartTime (?s1\<lparr>scrollAttempts := scrollAttempts s + 1\<rparr>) \<and>
        scrollAttempts (?s1\<lparr>scrollAttempts := scrollAttempts s + 1\<rparr>) \<le> maxScrollAttempts \<and>
        tweetIds (?s1\<lparr>scrollAttempts := scrollAttempts s + 1\<rparr>)
          = tweetId ` set (discovered pg uid (scrollAttempts (?s1\<lparr>scrollAttempts := scrollAttempts s + 1\<rparr>))) \<and>
        tweets (?s1\<lparr>scrollAttempts := scrollAttempts s + 1\<rparr>)
          = map toTweet (fresh {} (discovered pg uid
              (scrollAttempts (?s1\<lparr>scrollAttempts := scrollAttempts s + 1\<rparr>))))"
    using nr tw ids lt by simp
qed

lemma scrollLoop_first_rounds_only:
  assumes "\<forall>k<maxScrollAttempts. newTweetsAt pg uid k = newTweetsAt pg' uid k \<and>
             scrollError pg k = scrollError pg' k"
  shows "scrollLoop P pg uid st s = scrollLoop P pg' uid st s"
proof (induction "maxScrollAttempts - scrollAttempts s" arbitrary: s rule: less_induct)
  case less
  show ?case
  proof (cases "scrollAttempts s < maxScrollAttempts \<and> \<not> hasReachedStartTime s")
    case False
    then show ?thesis by (simp add: scrollLoop_exit)
  next
    case True
    then have lt: "scrollAttempts s < maxScrollAttempts" and nr: "\<not> hasReachedStartTime s" by auto
    have same: "newTweetsAt pg uid (scrollAttempts s) = newTweetsAt pg' uid (scrollAttempts s)"
      "scrollError pg (scrollAttempts s) = scrollError pg' (scrollAttempts s)"
      using assms lt by auto
    show ?thesis
    proof (cases "newTweetsAt pg uid (scrollAttempts s)")
      case (Inl e)
      then show ?thesis
        using same by (simp add: scrollLoop_failed_round [OF lt nr])
    next
      case (Inr cs)
      let ?s2 = "(processRound P st cs s)\<lparr>scrollAttempts := scrollAttempts s + 1\<rparr>"
      have "maxScrollAttempts - scrollAttempts ?s2 < maxScrollAttempts - scrollAttempts s"
        using lt by simp
      then have "scrollLoop P pg uid st ?s2 = scrollLoop P pg' uid st ?s2"
        by (rule less.hyps)
      then show ?thesis
        using Inr same
        by (auto simp add: scrollLoop_step [OF lt nr, of pg uid cs] scrollLoop_step [OF lt nr, of pg' uid cs]
            Let_def split: option.splits)
    qed
  qed
qed

lemma advance_fields [simp]:
  "scrollAttempts (advance s) = scrollAttempts s + 1"
  "hasReachedStartTime (advance s) = hasReachedStartTime s"
  "noNewTweetsCount (advance s) = noNewTweetsCount s"
  "tweets (advance s) = tweets s"
  "tweetIds (advance s) = tweetIds s"
  by (simp_all add: advance_def)

lemma scrape_Inr:
  "scrape P pg uid st = Inr r \<Longrightarrow> scrollLoop P pg uid st initialRun = Inr r"
  by (auto simp add: scrape_def split: option.splits if_splits)

lemma fetchSingleUser_Inr:
  "fetchSingleUser P pg uid st = Inr ts \<Longrightarrow>
     \<exists>r. scrollLoop P pg uid st initialRun = Inr r \<and> tweets r = ts"
  by (auto simp add: fetchSingleUser_def split: option.splits sum.splits dest: scrape_Inr)

lemma scrollLoop_continue:
  assumes "scrollAttempts s < maxScrollAttempts" and "\<not> hasReachedStartTime s"
    and "newTweetsAt pg uid (scrollAttempts s) = Inr cs"
    and "\<not> stops (processRound P st cs s)"
    and "scrollError pg (scrollAttempts s) = None"
  shows "scrollLoop P pg uid st s
           = scrollLoop P pg uid st (advance (processRound P st cs s))"
  using assms(4,5) by (simp add: scrollLoop_step [OF assms(1-3)] Let_def advance_def)

lemma scrollLoop_stop:
  assumes "scrollAttempts s < maxScrollAttempts" and "\<not> hasReachedStartTime s"
    and "newTweetsAt pg uid (scrollAttempts s) = Inr cs"
    and "stops (processRound P st cs s)"
  shows "scrollLoop P pg uid st s = Inr (processRound P st cs s)"
  using assms(4) by (simp add: scrollLoop_step [OF assms(1-3)] Let_def)

lemma three_idle_rounds:
  assumes k: "scrollAttempts s + 2 < maxScrollAttempts"
    and nr: "\<not> hasReachedStartTime s" and idle0: "noNewTweetsCount s = 0"
    and a0: "newTweetsAt pg uid (scrollAttempts s) = Inr cs0"
    and a1: "newTweetsAt pg uid (scrollAttempts s + 1) = Inr cs1"
    and a2: "newTweetsAt pg uid (scrollAttempts s + 2) = Inr cs2"
    and sc0: "scrollError pg (scrollAttempts s) = None"
    and sc1: "scrollError pg (scrollAttempts s + 1) = None"
    and s1: "s1 = processRound P st cs0 s"
    and s2: "s2 = processRound P st cs1 (advance s1)"
    and s3: "s3 = processRound P st cs2 (advance s2)"
    and add: "addedCount s1 = 0" "addedCount s2 = 0" "addedCount s3 = 0"
    and nr': "\<not> hasReachedStartTime s1" "\<not> hasReachedStartTime s2"
  shows "scrollLoop P pg uid st s = Inr s3 \<and> tweets s3 = tweets s \<and> noNewTweetsCount s3 = 3"
proof -
  have n1: "noNewTweetsCount s1 = 1" "tweets s1 = tweets s"
    using add(1) idle0 processRound_noNew [of P st cs0 s]
      processRound_idle_keeps_tweets [of P st cs0 s]
    by (simp_all add: s1)
  have n2: "noNewTweetsCount s2 = 2" "tweets s2 = tweets s"
    using add(2) n1 processRound_noNew [of P st cs1 "advance s1"]
      processRound_idle_keeps_tweets [of P st cs1 "advance s1"]
    by (simp_all add: s2)
  have n3: "noNewTweetsCount s3 = 3" "tweets s3 = tweets s"
    using add(3) n2 processRound_noNew [of P st cs2 "advance s2"]
      processRound_idle_keeps_tweets [of P st cs2 "advance s2"]
    by (simp_all add: s3)
  have at1: "scrollAttempts s1 = scrollAttempts s"
    by (simp add: s1)
  have at2: "scrollAttempts s2 = scrollAttempts s + 1"
    by (simp add: s2 s1)
  have step1: "scrollLoop P pg uid st s = scrollLoop P pg uid st (advance s1)"
    unfolding s1
    using k nr a0 sc0 n1(1) nr'(1)
    by (intro scrollLoop_continue) (simp_all add: stops_def s1)
  have step2: "scrollLoop P pg uid st (advance s1) = scrollLoop P pg uid st (advance s2)"
    unfolding s2
    using k nr'(1) a1 sc1 n2(1) nr'(2)
    by (intro scrollLoop_continue) (simp_all add: stops_def s2 at1)
  have step3: "scrollLoop P pg uid st (advance s2) = Inr s3"
    unfolding s3
    using k nr'(2) a2 n3(1) add(3)
    by (intro scrollLoop_stop) (simp_all add: stops_def s3 at2)
  show ?thesis using step1 step2 step3 n3 by simp
qed

lemma roundAt_eq:
  "newTweetsAt pg uid (scrollAttempts s) = Inr cs \<Longrightarrow>
     roundAt P pg uid st s = processRound P st cs s"
  by (simp add: roundAt_def roundCandidates_def)

text \<open>Claim C6.  The pagination loop is a total function (its termination is proved with the
  definition) that consults at most the first 100 rounds of the page; a run starts at round 0
  with an idle streak of 0, the boundary flag unset and no output.  A run that returns has
  stopped for one of three reasons: boundary reached, an idle streak of 3, or 100 completed
  rounds.  The loop stops at a loop head that is past the cap or has the boundary flag, stops
  after a round exactly when that round reaches the boundary or brings the idle streak to 3,
  and otherwise scrolls and runs the next round.  A round that adds no record increments the
  idle streak and leaves the output as it was; a round that adds a record resets the streak
  to 0.  Three rounds in a row that add no record end the run with the output collected
  before them.\<close>

theorem pagination_terminates:
  "maxScrollAttempts = 100 \<and>
   scrollAttempts initialRun = 0 \<and> noNewTweetsCount initialRun = 0 \<and>
   \<not> hasReachedStartTime initialRun \<and> tweets initialRun = [] \<and>
   (scrollLoop P pg uid st initialRun = Inr r \<longrightarrow>
      scrollAttempts r \<le> maxScrollAttempts \<and> noNewTweetsCount r \<le> 3 \<and>
      (hasReachedStartTime r \<or> (addedCount r = 0 \<and> noNewTweetsCount r = 3) \<or>
       scrollAttempts r = maxScrollAttempts)) \<and>
   ((\<forall>k<maxScrollAttempts. articlesAt pg k = articlesAt pg' k \<and> scrollError pg k = scrollError pg' k)
      \<longrightarrow> scrollLoop P pg uid st s = scrollLoop P pg' uid st s) \<and>
   (\<not> (scrollAttempts s < maxScrollAttempts \<and> \<not> hasReachedStartTime s)
      \<longrightarrow> scrollLoop P pg uid st s = Inr s) \<and>
   (scrollAttempts s < maxScrollAttempts \<and> \<not> hasReachedStartTime s \<and>
    newTweetsAt pg uid (scrollAttempts s) = Inr cs
      \<longrightarrow> (if addedCount (roundAt P pg uid st s) = 0
            then noNewTweetsCount (roundAt P pg uid st s) = noNewTweetsCount s + 1 \<and>
                 tweets (roundAt P pg uid st s) = tweets s
            else noNewTweetsCount (roundAt P pg uid st s) = 0) \<and>
           scrollLoop P pg uid st s
             = (if stops (roundAt P pg uid st s) then Inr (roundAt P pg uid st s)
                else case scrollError pg (scrollAttempts s) of
                       Some e \<Rightarrow> Inl e
                     | None \<Rightarrow> scrollLoop P pg uid st (advance (roundAt P pg uid st s)))) \<and>
   (scrollAttempts s + 2 < maxScrollAttempts \<and> \<not> hasReachedStartTime s \<and>
    noNewTweetsCount s = 0 \<and>
    newTweetsAt pg uid (scrollAttempts s) = Inr cs0 \<and>
    newTweetsAt pg uid (scrollAttempts s + 1) = Inr cs1 \<and>
    newTweetsAt pg uid (scrollAttempts s + 2) = Inr cs2 \<and>
    scrollError pg (scrollAttempts s) = None \<and> scrollError pg (scrollAttempts s + 1) = None \<and>
    s1 = roundAt P pg uid st s \<and> s2 = roundAt P pg uid st (advance s1) \<and>
    s3 = roundAt P pg uid st (advance s2) \<and>
    addedCount s1 = 0 \<and> addedCount s2 = 0 \<and> addedCount s3 = 0 \<and>
    \<not> hasReachedStartTime s1 \<and> \<not> hasReachedStartTime s2
      \<longrightarrow> scrollLoop P pg uid st s = Inr s3 \<and> tweets s3 = tweets s \<and> noNewTweetsCount s3 = 3)"
proof (intro conjI impI)
  show "maxScrollAttempts = 100" by (simp add: maxScrollAttempts_def)
  show "scrollAttempts initialRun = 0" "noNewTweetsCount initialRun = 0"
    "\<not> hasReachedStartTime initialRun" "tweets initialRun = []"
    by (simp_all add: initialRun_def)
next
  assume run: "scrollLoop P pg uid st initialRun = Inr r"
  have "scrollAttempts initialRun \<le> maxScrollAttempts" "noNewTweetsCount initialRun \<le> 2"
    by (simp_all add: initialRun_def)
  from scrollLoop_stop_reason [OF run this]
  show "scrollAttempts r \<le> maxScrollAttempts" "noNewTweetsCount r \<le> 3"
    "hasReachedStartTime r \<or> (addedCount r = 0 \<and> noNewTweetsCount r = 3) \<or>
       scrollAttempts r = maxScrollAttempts"
    by simp_all
next
  assume "\<forall>k<maxScrollAttempts. articlesAt pg k = articlesAt pg' k \<and> scrollError pg k = scrollError pg' k"
  then have "\<forall>k<maxScrollAttempts. newTweetsAt pg uid k = newTweetsAt pg' uid k \<and>
      scrollError pg k = scrollError pg' k"
    by (simp add: newTweetsAt_def)
  then show "scrollLoop P pg uid st s = scrollLoop P pg' uid st s"
    by (rule scrollLoop_first_rounds_only)
next
  assume "\<not> (scrollAttempts s < maxScrollAttempts \<and> \<not> hasReachedStartTime s)"
  then show "scrollLoop P pg uid st s = Inr s" by (rule scrollLoop_exit)
next
  assume a: "scrollAttempts s < maxScrollAttempts \<and> \<not> hasReachedStartTime s \<and>
    newTweetsAt pg uid (scrollAttempts s) = Inr cs"
  then have eq: "roundAt P pg uid st s = processRound P st cs s"
    by (simp add: roundAt_eq)
  show "if addedCount (roundAt P pg uid st s) = 0
        then noNewTweetsCount (roundAt P pg uid st s) = noNewTweetsCount s + 1 \<and>
             tweets (roundAt P pg uid st s) = tweets s
        else noNewTweetsCount (roundAt P pg uid st s) = 0"
    unfolding eq
    using processRound_noNew [of P st cs s]
      processRound_idle_keeps_tweets [of P st cs s]
    by simp
  show "scrollLoop P pg uid st s
             = (if stops (roundAt P pg uid st s) then Inr (roundAt P pg uid st s)
                else case scrollError pg (scrollAttempts s) of
                       Some e \<Rightarrow> Inl e
                     | None \<Rightarrow> scrollLoop P pg uid st (advance (roundAt P pg uid st s)))"
    unfolding eq using a
    by (cases "scrollError pg (scrollAttempts s)")
      (simp_all add: scrollLoop_step [of s pg uid cs P st] Let_def advance_def)
next
  assume a: "scrollAttempts s + 2 < maxScrollAttempts \<and> \<not> hasReachedStartTime s \<and>
    noNewTweetsCount s = 0 \<and>
    newTweetsAt pg uid (scrollAttempts s) = Inr cs0 \<and>
    newTweetsAt pg uid (scrollAttempts s + 1) = Inr cs1 \<and>
    newTweetsAt pg uid (scrollAttempts s + 2) = Inr cs2 \<and>
    scrollError pg (scrollAttempts s) = None \<and> scrollError pg (scrollAttempts s + 1) = None \<and>
    s1 = roundAt P pg uid st s \<and> s2 = roundAt P pg uid st (advance s1) \<and>
    s3 = roundAt P pg uid st (advance s2) \<and>
    addedCount s1 = 0 \<and> addedCount s2 = 0 \<and> addedCount s3 = 0 \<and>
    \<not> hasReachedStartTime s1 \<and> \<not> hasReachedStartTime s2"
  then have k: "scrollAttempts s + 2 < maxScrollAttempts" and nr: "\<not> hasReachedStartTime s"
    and idle0: "noNewTweetsCount s = 0"
    and a0: "newTweetsAt pg uid (scrollAttempts s) = Inr cs0"
    and a1: "newTweetsAt pg uid (scrollAttempts s + 1) = Inr cs1"
    and a2: "newTweetsAt pg uid (scrollAttempts s + 2) = Inr cs2"
    and sc: "scrollError pg (scrollAttempts s) = None" "scrollError pg (scrollAttempts s + 1) = None"
    and d1: "s1 = roundAt P pg uid st s" and d2: "s2 = roundAt P pg uid st (advance s1)"
    and d3: "s3 = roundAt P pg uid st (advance s2)"
    and add: "addedCount s1 = 0" "addedCount s2 = 0" "addedCount s3 = 0"
    and nr': "\<not> hasReachedStartTime s1" "\<not> hasReachedStartTime s2"
    by blast+
  have e1: "s1 = processRound P st cs0 s"
    unfolding d1 by (rule roundAt_eq [OF a0])
  have at1: "scrollAttempts (advance s1) = scrollAttempts s + 1"
    unfolding e1 by simp
  have e2: "s2 = processRound P st cs1 (advance s1)"
    unfolding d2 by (rule roundAt_eq) (simp only: at1 a1)
  have at2: "scrollAttempts (advance s2) = scrollAttempts s + 2"
    unfolding e2 using at1 by simp
  have e3: "s3 = processRound P st cs2 (advance s2)"
    unfolding d3 by (rule roundAt_eq) (simp only: at2 a2)
  have "scrollLoop P pg uid st s = Inr s3 \<and> tweets s3 = tweets s \<and> noNewTweetsCount s3 = 3"
    by (rule three_idle_rounds [OF k nr idle0 a0 a1 a2 sc e1 e2 e3 add nr'])
  then show "scrollLoop P pg uid st s = Inr s3" "tweets s3 = tweets s" "noNewTweetsCount s3 = 3"
    by simp_all
qed

theorem pagination_terminates_witness:
  "scrollLoop refPlatform alicePage ''alice'' boundary initialRun = Inr idleRun \<and>
   scrollAttempts idleRun \<le> maxScrollAttempts \<and> noNewTweetsCount idleRun = 3 \<and>
   addedCount idleRun = 0 \<and> \<not> hasReachedStartTime idleRun \<and>
   scrollLoop refPlatform alicePage ''alice'' boundary afterFirstRound = Inr idleRun \<and>
   tweets idleRun = tweets afterFirstRound \<and>
   scrollLoop refPlatform cappedPage ''alice'' boundary afterFirstRound = Inr idleRun \<and>
   scrollLoop refPlatform alicePage ''alice'' boundary
       (afterFirstRound\<lparr>scrollAttempts := 100\<rparr>) = Inr (afterFirstRound\<lparr>scrollAttempts := 100\<rparr>) \<and>
   noNewTweetsCount (roundAt refPlatform alicePage ''alice'' boundary afterFirstRound) = 1 \<and>
   scrollLoop refPlatform alicePage ''alice'' boundary afterFirstRound
     = scrollLoop refPlatform alicePage ''alice'' boundary
         (advance (roundAt refPlatform alicePage ''alice'' boundary afterFirstRound))"
proof -
  let ?s1 = "roundAt refPlatform alicePage ''alice'' boundary afterFirstRound"
  let ?s2 = "roundAt refPlatform alicePage ''alice'' boundary (advance ?s1)"
  let ?s3 = "roundAt refPlatform alicePage ''alice'' boundary (advance ?s2)"
  let ?full = "afterFirstRound\<lparr>scrollAttempts := 100\<rparr>"
  note inst = pagination_terminates [where P = refPlatform and pg = alicePage and pg' = cappedPage
      and uid = "''alice''" and st = boundary and r = idleRun and s = afterFirstRound
      and cs = aliceCandidates and ?cs0.0 = aliceCandidates and ?cs1.0 = aliceCandidates
      and ?cs2.0 = aliceCandidates and ?s1.0 = ?s1 and ?s2.0 = ?s2 and ?s3.0 = ?s3]
  note inst_cap = pagination_terminates [where P = refPlatform and pg = alicePage
      and uid = "''alice''" and st = boundary and s = ?full]
  have run: "scrollLoop refPlatform alicePage ''alice'' boundary initialRun = Inr idleRun"
    by code_simp
  have arts: "articlesAt alicePage k = Inr aliceArticles" "scrollError alicePage k = None" for k
    by (simp_all add: alicePage_def exPage_def aliceArticles_def)
  have "extractTweets ''alice'' aliceArticles = Inr aliceCandidates"
    by code_simp
  then have new: "newTweetsAt alicePage ''alice'' k = Inr aliceCandidates" for k
    by (simp add: newTweetsAt_def arts)
  have same: "\<forall>k<maxScrollAttempts. articlesAt alicePage k = articlesAt cappedPage k \<and>
      scrollError alicePage k = scrollError cappedPage k"
    by (simp add: cappedPage_def arts maxScrollAttempts_def)
  have pre: "scrollAttempts afterFirstRound + 2 < maxScrollAttempts \<and>
      \<not> hasReachedStartTime afterFirstRound \<and> noNewTweetsCount afterFirstRound = 0"
    by (simp add: afterFirstRound_def maxScrollAttempts_def)
  have head: "scrollAttempts afterFirstRound < maxScrollAttempts"
    by (simp add: afterFirstRound_def maxScrollAttempts_def)
  have past: "\<not> (scrollAttempts ?full < maxScrollAttempts \<and> \<not> hasReachedStartTime ?full)"
    by (simp add: maxScrollAttempts_def)
  have idle: "addedCount ?s1 = 0 \<and> addedCount ?s2 = 0 \<and> addedCount ?s3 = 0 \<and>
      \<not> hasReachedStartTime ?s1 \<and> \<not> hasReachedStartTime ?s2"
    by code_simp
  have go: "\<not> stops ?s1" by code_simp
  have s3: "?s3 = idleRun" by code_simp
  have bound: "scrollAttempts idleRun \<le> maxScrollAttempts \<and> noNewTweetsCount idleRun \<le> 3"
    using inst run by blast
  have law: "scrollLoop refPlatform alicePage ''alice'' boundary afterFirstRound = Inr ?s3 \<and>
      tweets ?s3 = tweets afterFirstRound \<and> noNewTweetsCount ?s3 = 3"
    using inst new arts pre idle by blast
  have ext: "scrollLoop refPlatform alicePage ''alice'' boundary afterFirstRound
      = scrollLoop refPlatform cappedPage ''alice'' boundary afterFirstRound"
    using inst same by blast
  have exit: "scrollLoop refPlatform alicePage ''alice'' boundary ?full = Inr ?full"
    using inst_cap past by blast
  have step: "(if addedCount ?s1 = 0
            then noNewTweetsCount ?s1 = noNewTweetsCount afterFirstRound + 1 \<and>
                 tweets ?s1 = tweets afterFirstRound
            else noNewTweetsCount ?s1 = 0) \<and>
           scrollLoop refPlatform alicePage ''alice'' boundary afterFirstRound
             = (if stops ?s1 then Inr ?s1
                else case scrollError alicePage (scrollAttempts afterFirstRound) of
                       Some e \<Rightarrow> Inl e
                     | None \<Rightarrow> scrollLoop refPlatform alicePage ''alice'' boundary (advance ?s1))"
    using inst head pre new by blast
  have n1: "noNewTweetsCount ?s1 = 1"
    using step idle pre by simp
  have cont: "scrollLoop refPlatform alicePage ''alice'' boundary afterFirstRound
     = scrollLoop refPlatform alicePage ''alice'' boundary (advance ?s1)"
    using step go arts by simp
  have l: "scrollLoop refPlatform alicePage ''alice'' boundary afterFirstRound = Inr idleRun"
    "tweets idleRun = tweets afterFirstRound"
    using law unfolding s3 by simp_all
  have c: "scrollLoop refPlatform cappedPage ''alice'' boundary afterFirstRound = Inr idleRun"
    using ext l(1) by simp
  have i: "noNewTweetsCount idleRun = 3" "addedCount idleRun = 0" "\<not> hasReachedStartTime idleRun"
    by (simp_all add: idleRun_def)
  from run bound i l c exit n1 cont show ?thesis by blast
qed

lemma discovered_member:
  assumes "c \<in> set (discovered pg uid n)"
  shows "\<exists>k<n. c \<in> set (roundCandidates pg uid k)"
  using assms by (auto simp add: discovered_def)

lemma extractTweets_member:
  "extractTweets uid as = Inr cs \<Longrightarrow>
     c \<in> set cs \<longleftrightarrow> (\<exists>a\<in>set as. extractArticle uid a = Inr (Some c))"
proof (induction as arbitrary: cs)
  case Nil
  then show ?case by simp
next
  case (Cons a as)
  from Cons.prems obtain r cs' where r: "extractArticle uid a = Inr r"
      "extractTweets uid as = Inr cs'" "cs = (case r of None \<Rightarrow> cs' | Some c \<Rightarrow> c # cs')"
    by (auto split: sum.splits)
  show ?case
    using Cons.IH [OF r(2)] r(1,3) by (cases r) auto
qed

lemma roundCandidates_member:
  assumes "c \<in> set (roundCandidates pg uid k)"
  shows "\<exists>as a. articlesAt pg k = Inr as \<and> a \<in> set as \<and> extractArticle uid a = Inr (Some c)"
proof (cases "articlesAt pg k")
  case (Inl e)
  then show ?thesis using assms by (simp add: roundCandidates_def newTweetsAt_def)
next
  case (Inr as)
  show ?thesis
  proof (cases "extractTweets uid as")
    case (Inl e)
    then show ?thesis using assms Inr by (simp add: roundCandidates_def newTweetsAt_def)
  next
    case new: (Inr cs)
    then have "c \<in> set cs" using assms Inr by (simp add: roundCandidates_def newTweetsAt_def)
    then show ?thesis using extractTweets_member [OF new] Inr by blast
  qed
qed

lemma extractArticle_Some:
  assumes "extractArticle uid a = Inr (Some c)"
  shows "\<not> throws uid a \<and> (\<exists>l. tweetLink a = Some l \<and> tweetId c = snd l) \<and>
         userLink uid a = Some True \<and> timeDatetime a = Some (time c) \<and>
         userId c = uid \<and> isPinned c = pinnedOf a"
  using assms
  by (auto simp add: extractArticle_def throws_def split: if_splits option.splits)

lemma extractArticle_skip:
  assumes "\<not> throws uid a"
    and "tweetLink a = None \<or> userLink uid a \<noteq> Some True \<or> timeDatetime a = None"
  shows "extractArticle uid a = Inr None"
  using assms
  by (auto simp add: extractArticle_def throws_def split: if_splits option.splits)

lemma extractArticle_throws:
  "throws uid a \<longleftrightarrow> extractArticle uid a = Inl handlerError"
  by (auto simp add: extractArticle_def throws_def split: if_splits option.splits)

lemma extractTweets_skip:
  "extractArticle uid a = Inr None \<Longrightarrow>
     extractTweets uid (xs @ a # ys) = extractTweets uid (xs @ ys)"
  by (induction xs) (simp_all split: sum.splits)

lemma extractTweets_throws:
  "a \<in> set as \<Longrightarrow> throws uid a \<Longrightarrow> extractTweets uid as = Inl handlerError"
proof (induction as)
  case Nil
  then show ?case by simp
next
  case (Cons x as)
  show ?case
  proof (cases "extractArticle uid x")
    case (Inl e)
    then have "throws uid x"
      by (auto simp add: extractArticle_def throws_def split: if_splits option.splits)
    then show ?thesis by (simp add: extractArticle_throws [THEN iffD1])
  next
    case (Inr r)
    then have "\<not> throws uid x" by (simp add: extractArticle_throws)
    then have "a \<in> set as" using Cons.prems by auto
    then show ?thesis using Cons.IH Cons.prems(2) Inr by simp
  qed
qed

lemma fetchSingleUser_throws:
  assumes "articlesAt pg 0 = Inr as" and "a \<in> set as" and "throws uid a"
  shows "isl (fetchSingleUser P pg uid st)"
proof -
  have "newTweetsAt pg uid (scrollAttempts initialRun) = Inl handlerError"
    using assms by (simp add: newTweetsAt_def initialRun_def extractTweets_throws)
  moreover have "scrollAttempts initialRun < maxScrollAttempts" "\<not> hasReachedStartTime initialRun"
    by (simp_all add: initialRun_def maxScrollAttempts_def)
  ultimately have "scrollLoop P pg uid st initialRun = Inl handlerError"
    by (intro scrollLoop_failed_round)
  then show ?thesis
    by (simp add: fetchSingleUser_def scrape_def split: option.splits)
qed

lemma tweetLink_Some:
  "tweetLink a = Some l \<Longrightarrow> l \<in> set (anchors a) \<and> includes_str (fst l) ''/status/''"
  by (auto simp add: tweetLink_def find_Some_iff)

lemma toTweet_time [simp]: "time (toTweet c) = time c"
  by (simp add: toTweet_def)

lemma fromDiscovered_origin:
  assumes "fromDiscovered P pg uid st n r" and "t \<in> set (tweets r)"
  shows "\<exists>c \<in> set (discovered pg uid n). t = toTweet c \<and> \<not> isOld P st c"
proof -
  obtain ks where ks: "tweets r = map toTweet ks" "subseq ks (fresh {} (discovered pg uid n))"
      "\<forall>k\<in>set ks. \<not> isOld P st k"
    using assms(1) unfolding fromDiscovered_def by blast
  obtain c where c: "c \<in> set ks" "t = toTweet c"
    using assms(2) ks(1) by auto
  obtain c' where "c' \<in> set (fresh {} (discovered pg uid n))" "c = c'"
    using ks(2) c(1) by (rule list_emb_set)
  then have "c \<in> set (fresh {} (discovered pg uid n))"
    by simp
  then have "c \<in> set (discovered pg uid n)"
    using fresh_subset by blast
  then show ?thesis using c ks(3) by blast
qed

lemma fromDiscovered_distinct:
  assumes "fromDiscovered P pg uid st n r"
  shows "\<exists>ks. tweets r = map toTweet ks \<and> subseq ks (fresh {} (discovered pg uid n)) \<and>
              distinct (map tweetId ks)"
proof -
  obtain ks where ks: "tweets r = map toTweet ks" "subseq ks (fresh {} (discovered pg uid n))"
    using assms unfolding fromDiscovered_def by blast
  have "subseq (map tweetId ks) (map tweetId (fresh {} (discovered pg uid n)))"
    using ks(2) by (rule subseq_map)
  then have "distinct (map tweetId ks)"
    using fresh_distinct [of "{}" "discovered pg uid n"]
    by (metis in_set_subseqs subseqs_distinctD)
  then show ?thesis using ks by blast
qed

subsection \<open>The claims about the collector\<close>

lemma three_stale_break:
  assumes "stale P st a" "stale P st b" "stale P st c"
    and "tweetId a \<notin> tweetIds s" "tweetId b \<notin> insert (tweetId a) (tweetIds s)"
    and "tweetId c \<notin> insert (tweetId b) (insert (tweetId a) (tweetIds s))"
  shows "processTweets P st (a # b # c # rest) s = processTweets P st [a, b, c] s \<and>
         hasReachedStartTime (processTweets P st [a, b, c] s) \<and>
         tweets (processTweets P st [a, b, c] s) = tweets s"
  using assms by (simp add: stale_def Let_def)

lemma processRound_counter_local:
  "processRound P st cs (s\<lparr>nonPinnedOldTweetCount := n\<rparr>) = processRound P st cs s"
  by (simp add: processRound_def)

text \<open>Claim C2, as amended.  The stale streak is counted within one round: the counter starts
  at 0 in every round, so a round sets boundary-reached exactly when its own newly-deduped
  candidates, the pinned ones older than the boundary left out, contain three stale candidates
  in a row.  When three newly-deduped stale candidates follow one another the third one sets
  boundary-reached and ends the round: no later candidate is processed and the output is
  unchanged by the three.  A pinned candidate older than the boundary is marked seen and
  otherwise skipped: it adds no record and leaves the streak as it was.\<close>

theorem stale_streak_per_round:
  "(\<not> hasReachedStartTime s \<longrightarrow>
      hasReachedStartTime (processRound P st cs s)
        = streakReaches P st 0 (unpinnedFresh P st (tweetIds s) cs)) \<and>
   (stale P st a \<and> stale P st b \<and> stale P st c \<longrightarrow>
      streakReaches P st n (xs @ a # b # c # ys)) \<and>
   (stale P st a \<and> stale P st b \<and> stale P st c \<and>
    tweetId a \<notin> tweetIds s \<and> tweetId b \<notin> insert (tweetId a) (tweetIds s) \<and>
    tweetId c \<notin> insert (tweetId b) (insert (tweetId a) (tweetIds s)) \<longrightarrow>
      processTweets P st (a # b # c # rest) s = processTweets P st [a, b, c] s \<and>
      hasReachedStartTime (processTweets P st [a, b, c] s) \<and>
      tweets (processTweets P st [a, b, c] s) = tweets s) \<and>
   (isOld P st c \<and> isPinned c \<and> tweetId c \<notin> tweetIds s \<longrightarrow>
      processTweets P st (c # cs) s
        = processTweets P st cs (s\<lparr>tweetIds := insert (tweetId c) (tweetIds s)\<rparr>)) \<and>
   processRound P st cs (s\<lparr>nonPinnedOldTweetCount := n\<rparr>) = processRound P st cs s"
proof (intro conjI impI)
  assume "\<not> hasReachedStartTime s"
  then show "hasReachedStartTime (processRound P st cs s)
        = streakReaches P st 0 (unpinnedFresh P st (tweetIds s) cs)"
    by (rule processRound_reached_iff)
next
  assume "stale P st a \<and> stale P st b \<and> stale P st c"
  then show "streakReaches P st n (xs @ a # b # c # ys)"
    by (simp add: streakReaches_three)
next
  assume a: "stale P st a \<and> stale P st b \<and> stale P st c \<and>
    tweetId a \<notin> tweetIds s \<and> tweetId b \<notin> insert (tweetId a) (tweetIds s) \<and>
    tweetId c \<notin> insert (tweetId b) (insert (tweetId a) (tweetIds s))"
  then have "processTweets P st (a # b # c # rest) s = processTweets P st [a, b, c] s \<and>
         hasReachedStartTime (processTweets P st [a, b, c] s) \<and>
         tweets (processTweets P st [a, b, c] s) = tweets s"
    by (intro three_stale_break) blast+
  then show "processTweets P st (a # b # c # rest) s = processTweets P st [a, b, c] s"
    "hasReachedStartTime (processTweets P st [a, b, c] s)"
    "tweets (processTweets P st [a, b, c] s) = tweets s"
    by blast+
next
  assume "isOld P st c \<and> isPinned c \<and> tweetId c \<notin> tweetIds s"
  then show "processTweets P st (c # cs) s
        = processTweets P st cs (s\<lparr>tweetIds := insert (tweetId c) (tweetIds s)\<rparr>)"
    by (simp add: Let_def)
next
  show "processRound P st cs (s\<lparr>nonPinnedOldTweetCount := n\<rparr>) = processRound P st cs s"
    by (rule processRound_counter_local)
qed

theorem stale_streak_per_round_witness:
  "extractTweets ''alice'' scenarioArticles = Inr scenarioCandidates \<and>
   hasReachedStartTime (processRound refPlatform boundary scenarioCandidates initialRun) \<and>
   tweets (processRound refPlatform boundary scenarioCandidates initialRun) = scenarioTweets \<and>
   fetchSingleUser refPlatform (exPage (\<lambda>k. scenarioArticles)) ''alice'' boundary = Inr scenarioTweets \<and>
   processTweets refPlatform boundary (stale3 @ [recent]) initialRun
     = processTweets refPlatform boundary stale3 initialRun \<and>
   hasReachedStartTime (processTweets refPlatform boundary stale3 initialRun) \<and>
   streakReaches refPlatform boundary 0 stale3 \<and>
   processTweets refPlatform boundary [oldPinned, recent] initialRun
     = processTweets refPlatform boundary [recent] (initialRun\<lparr>tweetIds := {tweetId oldPinned}\<rparr>) \<and>
   map time (tweets (processTweets refPlatform boundary [oldPinned, recent] initialRun))
     = [''2026-01-12T00:00:00.000Z''] \<and>
   nonPinnedOldTweetCount (processTweets refPlatform boundary [oldPinned, recent] initialRun) = 0"
proof -
  let ?cs = scenarioCandidates
  have ex: "extractTweets ''alice'' scenarioArticles = Inr scenarioCandidates"
    by code_simp
  note inst1 = stale_streak_per_round [where P = refPlatform and st = boundary and s = initialRun
      and cs = "[recent]" and a = "stale3 ! 0" and b = "stale3 ! 1" and c = "stale3 ! 2"
      and rest = "[recent]" and xs = "[]" and ys = "[]" and n = 0]
  note inst2 = stale_streak_per_round [where P = refPlatform and st = boundary and s = initialRun
      and cs = ?cs and a = "stale3 ! 0" and b = "stale3 ! 1" and c = "stale3 ! 2"
      and rest = "[recent]" and xs = "[]" and ys = "[]" and n = 0]
  note inst3 = stale_streak_per_round [where P = refPlatform and st = boundary and s = initialRun
      and cs = "[recent]" and a = "stale3 ! 0" and b = "stale3 ! 1" and c = oldPinned
      and rest = "[recent]" and xs = "[]" and ys = "[]" and n = 0]
  have nr: "\<not> hasReachedStartTime initialRun" by (simp add: initialRun_def)
  have streak: "streakReaches refPlatform boundary 0 (unpinnedFresh refPlatform boundary (tweetIds initialRun) ?cs)"
    by code_simp
  have reached: "hasReachedStartTime (processRound refPlatform boundary ?cs initialRun)"
    using inst2 nr streak by blast
  have st: "stale refPlatform boundary (stale3 ! 0) \<and> stale refPlatform boundary (stale3 ! 1) \<and>
      stale refPlatform boundary (stale3 ! 2) \<and>
      tweetId (stale3 ! 0) \<notin> tweetIds initialRun \<and>
      tweetId (stale3 ! 1) \<notin> insert (tweetId (stale3 ! 0)) (tweetIds initialRun) \<and>
      tweetId (stale3 ! 2) \<notin> insert (tweetId (stale3 ! 1)) (insert (tweetId (stale3 ! 0)) (tweetIds initialRun))"
    by code_simp
  have l3: "stale3 = [stale3 ! 0, stale3 ! 1, stale3 ! 2]" by code_simp
  have brk: "processTweets refPlatform boundary (stale3 ! 0 # stale3 ! 1 # stale3 ! 2 # [recent]) initialRun
      = processTweets refPlatform boundary [stale3 ! 0, stale3 ! 1, stale3 ! 2] initialRun \<and>
      hasReachedStartTime (processTweets refPlatform boundary [stale3 ! 0, stale3 ! 1, stale3 ! 2] initialRun)"
    using inst1 st by blast
  have brk': "processTweets refPlatform boundary (stale3 @ [recent]) initialRun
     = processTweets refPlatform boundary stale3 initialRun \<and>
     hasReachedStartTime (processTweets refPlatform boundary stale3 initialRun)"
    using brk by (subst (1 2 3) l3) simp
  have "streakReaches refPlatform boundary 0 ([] @ stale3 ! 0 # stale3 ! 1 # stale3 ! 2 # [])"
    using inst1 st by blast
  then have three: "streakReaches refPlatform boundary 0 stale3"
    by (subst l3) simp
  have pin: "isOld refPlatform boundary oldPinned \<and> isPinned oldPinned \<and> tweetId oldPinned \<notin> tweetIds initialRun"
    by code_simp
  have pinned: "processTweets refPlatform boundary (oldPinned # [recent]) initialRun
      = processTweets refPlatform boundary [recent] (initialRun\<lparr>tweetIds := insert (tweetId oldPinned) (tweetIds initialRun)\<rparr>)"
    using inst3 pin by blast
  have ids: "tweetIds initialRun = {}" by (simp add: initialRun_def)
  have out: "tweets (processRound refPlatform boundary ?cs initialRun) = scenarioTweets"
    by code_simp
  have run: "fetchSingleUser refPlatform (exPage (\<lambda>k. scenarioArticles)) ''alice'' boundary = Inr scenarioTweets"
    by code_simp
  have t: "map time (tweets (processTweets refPlatform boundary [oldPinned, recent] initialRun))
     = [''2026-01-12T00:00:00.000Z'']"
    by code_simp
  have n: "nonPinnedOldTweetCount (processTweets refPlatform boundary [oldPinned, recent] initialRun) = 0"
    by code_simp
  show ?thesis
    using ex reached out run brk' three pinned t n unfolding ids by simp
qed

theorem stale_streak_counterexample:
  "map tweetId (fresh {} (discovered (exPage splitRounds) ''alice'' 2))
     = [''https://x.com/alice/status/1'', ''https://x.com/alice/status/3'',
        ''https://x.com/alice/status/4'', ''https://x.com/alice/status/5'',
        ''https://x.com/alice/status/2''] \<and>
   map (stale refPlatform boundary) (fresh {} (discovered (exPage splitRounds) ''alice'' 2))
     = [False, True, True, True, False] \<and>
   map_sum id hasReachedStartTime (scrape refPlatform (exPage splitRounds) ''alice'' boundary)
     = Inr False \<and>
   fetchSingleUser refPlatform (exPage splitRounds) ''alice'' boundary
     = Inr [exTweet ''alice'' ''2026-01-12T00:00:00.000Z'',
            exTweet ''alice'' ''2026-01-11T00:00:00.000Z'']"
  by code_simp

text \<open>Claim C3, as amended.  Every record of the output is built from an article, rendered in
  one of the at most 100 rounds, that carried a permalink (the record's id), a link that the
  author selector built from the target user id finds, and a \<^verbatim>\<open>time\<close> element with a
  \<^verbatim>\<open>datetime\<close> attribute, whose value is the record's \<^verbatim>\<open>time\<close>.  An article that lacks one
  of the three, the extraction not throwing on it, yields no candidate, and the extraction of
  its round returns what it returns without that article.  The value of the attribute is not
  parsed at extraction: a candidate whose \<^verbatim>\<open>time\<close> is not a timestamp is never older than the
  boundary, and when its id is new it is appended to the output.\<close>

theorem output_record_origin:
  "(fetchSingleUser P pg uid st = Inr ts \<and> t \<in> set ts \<longrightarrow>
      (\<exists>k<maxScrollAttempts. \<exists>as a c.
          articlesAt pg k = Inr as \<and> a \<in> set as \<and> extractArticle uid a = Inr (Some c) \<and>
          t = toTweet c \<and>
          (\<exists>l. tweetLink a = Some l \<and> tweetId c = snd l \<and> includes_str (fst l) ''/status/'') \<and>
          userLink uid a = Some True \<and>
          timeDatetime a = Some (time t))) \<and>
   (\<not> throws uid a' \<and>
    (tweetLink a' = None \<or> userLink uid a' \<noteq> Some True \<or> timeDatetime a' = None)
      \<longrightarrow> extractArticle uid a' = Inr None \<and>
          extractTweets uid (xs @ a' # ys) = extractTweets uid (xs @ ys)) \<and>
   (getTime P (time c0) = None \<longrightarrow>
      \<not> isOld P st c0 \<and>
      (tweetId c0 \<notin> tweetIds s \<longrightarrow>
         processTweets P st (c0 # cs) s
           = processTweets P st cs
               (s\<lparr>tweetIds := insert (tweetId c0) (tweetIds s), nonPinnedOldTweetCount := 0,
                  tweets := tweets s @ [toTweet c0], addedCount := addedCount s + 1\<rparr>)))"
proof (intro conjI impI)
  assume a: "fetchSingleUser P pg uid st = Inr ts \<and> t \<in> set ts"
  then obtain r where r: "scrollLoop P pg uid st initialRun = Inr r" "tweets r = ts"
    using fetchSingleUser_Inr by blast
  obtain n where n: "n \<le> maxScrollAttempts" "fromDiscovered P pg uid st n r"
    using scrollLoop_provenance [OF r(1)] by blast
  obtain c where c: "c \<in> set (discovered pg uid n)" "t = toTweet c"
    using fromDiscovered_origin [OF n(2), of t] a r(2) by blast
  obtain k where k: "k < n" "c \<in> set (roundCandidates pg uid k)"
    using discovered_member [OF c(1)] by blast
  obtain as a where as: "articlesAt pg k = Inr as" "a \<in> set as"
      "extractArticle uid a = Inr (Some c)"
    using roundCandidates_member [OF k(2)] by blast
  note ex = extractArticle_Some [OF as(3)]
  obtain l where l: "tweetLink a = Some l" "tweetId c = snd l"
    using ex by blast
  have "k < maxScrollAttempts" using k(1) n(1) by simp
  moreover have "timeDatetime a = Some (time t)" using ex c(2) by simp
  moreover have "includes_str (fst l) ''/status/''" using tweetLink_Some [OF l(1)] by simp
  moreover have "userLink uid a = Some True" using ex by simp
  ultimately show "\<exists>k<maxScrollAttempts. \<exists>as a c.
          articlesAt pg k = Inr as \<and> a \<in> set as \<and> extractArticle uid a = Inr (Some c) \<and>
          t = toTweet c \<and>
          (\<exists>l. tweetLink a = Some l \<and> tweetId c = snd l \<and> includes_str (fst l) ''/status/'') \<and>
          userLink uid a = Some True \<and>
          timeDatetime a = Some (time t)"
    using as c(2) l by blast
next
  assume a: "\<not> throws uid a' \<and>
    (tweetLink a' = None \<or> userLink uid a' \<noteq> Some True \<or> timeDatetime a' = None)"
  then have "\<not> throws uid a'"
    and "tweetLink a' = None \<or> userLink uid a' \<noteq> Some True \<or> timeDatetime a' = None"
    by simp_all
  then show skip: "extractArticle uid a' = Inr None"
    by (rule extractArticle_skip)
  then show "extractTweets uid (xs @ a' # ys) = extractTweets uid (xs @ ys)"
    by (rule extractTweets_skip)
next
  assume "getTime P (time c0) = None"
  then show "\<not> isOld P st c0" by (simp add: isOld_def)
next
  assume "getTime P (time c0) = None" and "tweetId c0 \<notin> tweetIds s"
  then show "processTweets P st (c0 # cs) s
           = processTweets P st cs
               (s\<lparr>tweetIds := insert (tweetId c0) (tweetIds s), nonPinnedOldTweetCount := 0,
                  tweets := tweets s @ [toTweet c0], addedCount := addedCount s + 1\<rparr>)"
    by (simp add: isOld_def Let_def)
qed

theorem output_record_origin_witness:
  "fetchSingleUser refPlatform alicePage ''alice'' boundary = Inr aliceTweets \<and>
   (\<exists>k<maxScrollAttempts. \<exists>as a c.
       articlesAt alicePage k = Inr as \<and> a \<in> set as \<and>
       extractArticle ''alice'' a = Inr (Some c) \<and>
       exTweet ''alice'' ''2026-01-12T09:30:00.000Z'' = toTweet c \<and>
       userLink ''alice'' a = Some True \<and>
       timeDatetime a = Some ''2026-01-12T09:30:00.000Z'') \<and>
   userLink ''alice'' repostArticle = Some False \<and>
   extractArticle ''alice'' repostArticle = Inr None \<and>
   extractTweets ''alice'' ([aliceArticles ! 0] @ repostArticle # [aliceArticles ! 1])
     = Inr aliceCandidates \<and>
   fetchSingleUser refPlatform
       (exPage (\<lambda>k. [aliceArticles ! 0] @ repostArticle # [aliceArticles ! 1])) ''alice'' boundary
     = Inr aliceTweets \<and>
   getTime refPlatform (time (exCandidate ''alice'' ''1'' [] False)) = None \<and>
   \<not> isOld refPlatform boundary (exCandidate ''alice'' ''1'' [] False) \<and>
   tweets (processTweets refPlatform boundary [exCandidate ''alice'' ''1'' [] False] initialRun)
     = [exTweet ''alice'' []]"
proof -
  let ?c0 = "exCandidate ''alice'' ''1'' [] False"
  note inst = output_record_origin [where P = refPlatform and pg = alicePage and uid = "''alice''"
      and st = boundary and ts = aliceTweets and t = "exTweet ''alice'' ''2026-01-12T09:30:00.000Z''"
      and a' = repostArticle and xs = "[aliceArticles ! 0]" and ys = "[aliceArticles ! 1]"
      and ?c0.0 = ?c0 and s = initialRun and cs = "[]"]
  have nan: "getTime refPlatform (time ?c0) = None"
    by code_simp
  have new: "tweetId ?c0 \<notin> tweetIds initialRun"
    by (simp add: initialRun_def)
  have kept: "\<not> isOld refPlatform boundary ?c0"
    using inst nan by blast
  have "processTweets refPlatform boundary (?c0 # []) initialRun
      = processTweets refPlatform boundary []
          (initialRun\<lparr>tweetIds := insert (tweetId ?c0) (tweetIds initialRun),
             nonPinnedOldTweetCount := 0, tweets := tweets initialRun @ [toTweet ?c0],
             addedCount := addedCount initialRun + 1\<rparr>)"
    using inst nan new by blast
  then have appended: "tweets (processTweets refPlatform boundary [?c0] initialRun)
      = [exTweet ''alice'' []]"
    by (simp add: initialRun_def toTweet_def exCandidate_def exTweet_def)
  have run: "fetchSingleUser refPlatform alicePage ''alice'' boundary = Inr aliceTweets"
    by code_simp
  have mem: "exTweet ''alice'' ''2026-01-12T09:30:00.000Z'' \<in> set aliceTweets"
    by (simp add: aliceTweets_def)
  have nolink: "userLink ''alice'' repostArticle = Some False"
    by code_simp
  have quiet: "\<not> throws ''alice'' repostArticle"
    by code_simp
  have origin: "\<exists>k<maxScrollAttempts. \<exists>as a c.
       articlesAt alicePage k = Inr as \<and> a \<in> set as \<and>
       extractArticle ''alice'' a = Inr (Some c) \<and>
       exTweet ''alice'' ''2026-01-12T09:30:00.000Z'' = toTweet c \<and>
       userLink ''alice'' a = Some True \<and>
       timeDatetime a = Some (time (exTweet ''alice'' ''2026-01-12T09:30:00.000Z''))"
    using inst run mem by blast
  have skipped: "extractArticle ''alice'' repostArticle = Inr None \<and>
      extractTweets ''alice'' ([aliceArticles ! 0] @ repostArticle # [aliceArticles ! 1])
        = extractTweets ''alice'' ([aliceArticles ! 0] @ [aliceArticles ! 1])"
    using inst quiet nolink by simp
  have without: "extractTweets ''alice'' ([aliceArticles ! 0] @ [aliceArticles ! 1]) = Inr aliceCandidates"
    by code_simp
  have run': "fetchSingleUser refPlatform
       (exPage (\<lambda>k. [aliceArticles ! 0] @ repostArticle # [aliceArticles ! 1])) ''alice'' boundary
     = Inr aliceTweets"
    by code_simp
  show ?thesis
    using run origin nolink skipped without run' nan kept appended by (simp add: exTweet_def)
qed

theorem output_record_origin_counterexample:
  "fetchSingleUser refPlatform undatedPage ''alice'' boundary
     = Inr [exTweet ''alice'' [], exTweet ''alice'' ''2026-01-12T09:30:00.000Z''] \<and>
   getTime refPlatform (time (exTweet ''alice'' [])) = None"
  by code_simp

text \<open>Claim C7.  A run starts with an empty set of seen ids, and the set only grows: through
  the candidates of a round, through a round, and through the whole loop.  A candidate whose
  id is already seen, or is carried by an earlier candidate of the same round, changes
  nothing: the run proceeds as if it were absent.  The output of a run is drawn, in order,
  from the first occurrences of the ids in the discovery sequence, so no two records of the
  output come from candidates with the same id.\<close>

theorem dedup_within_run:
  "tweetIds initialRun = {} \<and>
   tweetIds s \<subseteq> tweetIds (processTweets P st cs s) \<and>
   tweetIds s \<subseteq> tweetIds (processRound P st cs s) \<and>
   (scrollLoop P pg uid st s = Inr r \<longrightarrow> tweetIds s \<subseteq> tweetIds r) \<and>
   (tweetId c' = tweetId c \<longrightarrow>
      processTweets P st (xs @ c # ys @ c' # zs) s = processTweets P st (xs @ c # ys @ zs) s) \<and>
   (tweetId c' \<in> tweetIds s \<longrightarrow>
      processTweets P st (ys @ c' # zs) s = processTweets P st (ys @ zs) s) \<and>
   (fetchSingleUser P pg uid st = Inr ts \<longrightarrow>
      (\<exists>n\<le>maxScrollAttempts. \<exists>ks. ts = map toTweet ks \<and>
          subseq ks (fresh {} (discovered pg uid n)) \<and> distinct (map tweetId ks)))"
proof (intro conjI impI)
  show "tweetIds initialRun = {}" by (simp add: initialRun_def)
  show "tweetIds s \<subseteq> tweetIds (processTweets P st cs s)" by (rule processTweets_ids_mono)
  show "tweetIds s \<subseteq> tweetIds (processRound P st cs s)" by (rule processRound_ids_mono)
next
  assume "scrollLoop P pg uid st s = Inr r"
  then show "tweetIds s \<subseteq> tweetIds r" by (rule scrollLoop_ids_mono)
next
  assume "tweetId c' = tweetId c"
  then show "processTweets P st (xs @ c # ys @ c' # zs) s = processTweets P st (xs @ c # ys @ zs) s"
    by (rule processTweets_duplicate)
next
  assume "tweetId c' \<in> tweetIds s"
  then show "processTweets P st (ys @ c' # zs) s = processTweets P st (ys @ zs) s"
    by (rule processTweets_seen_skipped)
next
  assume "fetchSingleUser P pg uid st = Inr ts"
  then obtain r where r: "scrollLoop P pg uid st initialRun = Inr r" "tweets r = ts"
    using fetchSingleUser_Inr by blast
  obtain n where n: "n \<le> maxScrollAttempts" "fromDiscovered P pg uid st n r"
    using scrollLoop_provenance [OF r(1)] by blast
  show "\<exists>n\<le>maxScrollAttempts. \<exists>ks. ts = map toTweet ks \<and>
          subseq ks (fresh {} (discovered pg uid n)) \<and> distinct (map tweetId ks)"
    using fromDiscovered_distinct [OF n(2)] n(1) r(2) by blast
qed

theorem dedup_within_run_witness:
  "fetchSingleUser refPlatform (exPage (\<lambda>k. duplicateArticles)) ''alice'' boundary = Inr aliceTweets \<and>
   extractTweets ''alice'' duplicateArticles = Inr duplicateCandidates \<and>
   map tweetId duplicateCandidates
     = [''https://x.com/alice/status/1'', ''https://x.com/alice/status/2'',
        ''https://x.com/alice/status/1''] \<and>
   (\<exists>n\<le>maxScrollAttempts. \<exists>ks. aliceTweets = map toTweet ks \<and>
       subseq ks (fresh {} (discovered (exPage (\<lambda>k. duplicateArticles)) ''alice'' n)) \<and>
       distinct (map tweetId ks)) \<and>
   processTweets refPlatform boundary duplicateCandidates initialRun
     = processTweets refPlatform boundary aliceCandidates initialRun \<and>
   tweetIds (processTweets refPlatform boundary aliceCandidates initialRun)
     = {''https://x.com/alice/status/1'', ''https://x.com/alice/status/2''} \<and>
   tweetIds afterFirstRound \<subseteq> tweetIds idleRun \<and>
   processTweets refPlatform boundary aliceCandidates afterFirstRound
     = processTweets refPlatform boundary [] afterFirstRound"
proof -
  let ?c1 = "exCandidate ''alice'' ''1'' ''2026-01-11T08:00:00.000Z'' False"
  let ?c2 = "exCandidate ''alice'' ''2'' ''2026-01-12T09:30:00.000Z'' False"
  let ?c1' = "exCandidate ''alice'' ''1'' ''2026-01-13T10:00:00.000Z'' False"
  note inst = dedup_within_run [where P = refPlatform and pg = "exPage (\<lambda>k. duplicateArticles)"
      and uid = "''alice''" and st = boundary and ts = aliceTweets and s = initialRun
      and c = ?c1 and c' = ?c1' and xs = "[]" and ys = "[?c2]" and zs = "[]"]
  note inst_loop = dedup_within_run [where P = refPlatform and pg = alicePage
      and uid = "''alice''" and st = boundary and s = afterFirstRound and r = idleRun
      and c' = ?c1 and ys = "[]" and zs = "[?c2]"]
  note inst_seen = dedup_within_run [where P = refPlatform and st = boundary and s = afterFirstRound
      and c' = ?c2 and ys = "[]" and zs = "[]"]
  have run: "fetchSingleUser refPlatform (exPage (\<lambda>k. duplicateArticles)) ''alice'' boundary = Inr aliceTweets"
    by code_simp
  have same: "tweetId ?c1' = tweetId ?c1" by (simp add: exCandidate_def)
  have cs: "duplicateCandidates = [] @ ?c1 # [?c2] @ ?c1' # []"
    "aliceCandidates = [] @ ?c1 # [?c2] @ []"
    by code_simp+
  have ex: "extractTweets ''alice'' duplicateArticles = Inr duplicateCandidates"
    by code_simp
  have ids: "map tweetId duplicateCandidates
     = [''https://x.com/alice/status/1'', ''https://x.com/alice/status/2'',
        ''https://x.com/alice/status/1'']"
    by code_simp
  have seen: "tweetIds (processTweets refPlatform boundary aliceCandidates initialRun)
     = {''https://x.com/alice/status/1'', ''https://x.com/alice/status/2''}"
    by code_simp
  have prov: "\<exists>n\<le>maxScrollAttempts. \<exists>ks. aliceTweets = map toTweet ks \<and>
       subseq ks (fresh {} (discovered (exPage (\<lambda>k. duplicateArticles)) ''alice'' n)) \<and>
       distinct (map tweetId ks)"
    using inst run by blast
  have dup: "processTweets refPlatform boundary ([] @ ?c1 # [?c2] @ ?c1' # []) initialRun
      = processTweets refPlatform boundary ([] @ ?c1 # [?c2] @ []) initialRun"
    using inst same by blast
  have loop: "scrollLoop refPlatform alicePage ''alice'' boundary afterFirstRound = Inr idleRun"
    by code_simp
  have mono: "tweetIds afterFirstRound \<subseteq> tweetIds idleRun"
    using inst_loop loop by blast
  have in1: "tweetId ?c1 \<in> tweetIds afterFirstRound" "tweetId ?c2 \<in> tweetIds afterFirstRound"
    by code_simp+
  have sk1: "processTweets refPlatform boundary ([] @ ?c1 # [?c2]) afterFirstRound
      = processTweets refPlatform boundary ([] @ [?c2]) afterFirstRound"
    using inst_loop in1(1) by blast
  have sk2: "processTweets refPlatform boundary ([] @ ?c2 # []) afterFirstRound
      = processTweets refPlatform boundary ([] @ []) afterFirstRound"
    using inst_seen in1(2) by blast
  have skipped: "processTweets refPlatform boundary aliceCandidates afterFirstRound
     = processTweets refPlatform boundary [] afterFirstRound"
    unfolding cs using sk1 sk2 by simp
  from run ex ids prov seen mono skipped dup show ?thesis
    unfolding cs by simp
qed

text \<open>Claim C10.  With the empty string as \<^verbatim>\<open>startTime\<close> no candidate is older than the
  boundary: a round appends every newly-deduped candidate, pinned or not, and never sets
  boundary-reached; a run that returns has stopped by the idle streak or by the cap of 100
  rounds, and its output is the whole newly-deduped discovery sequence of the rounds it
  ran.\<close>

theorem empty_start_time_disables_boundary:
  "\<not> isOld P [] c \<and>
   tweets (processTweets P [] cs s) = tweets s @ map toTweet (fresh (tweetIds s) cs) \<and>
   hasReachedStartTime (processTweets P [] cs s) = hasReachedStartTime s \<and>
   (scrollLoop P pg uid [] initialRun = Inr r \<longrightarrow>
      \<not> hasReachedStartTime r \<and>
      ((addedCount r = 0 \<and> noNewTweetsCount r = 3) \<or> scrollAttempts r = maxScrollAttempts) \<and>
      (\<exists>n\<le>maxScrollAttempts. tweets r = map toTweet (fresh {} (discovered pg uid n)))) \<and>
   (fetchSingleUser P pg uid [] = Inr ts \<longrightarrow>
      (\<exists>n\<le>maxScrollAttempts. ts = map toTweet (fresh {} (discovered pg uid n))))"
proof (intro conjI impI)
  show "\<not> isOld P [] c" by simp
  show "tweets (processTweets P [] cs s) = tweets s @ map toTweet (fresh (tweetIds s) cs)"
    "hasReachedStartTime (processTweets P [] cs s) = hasReachedStartTime s"
    using processTweets_no_boundary [of P cs s] by simp_all
next
  assume run: "scrollLoop P pg uid [] initialRun = Inr r"
  show nr: "\<not> hasReachedStartTime r"
    and "\<exists>n\<le>maxScrollAttempts. tweets r = map toTweet (fresh {} (discovered pg uid n))"
    using scrollLoop_no_boundary [OF run] by simp_all
  have "scrollAttempts initialRun \<le> maxScrollAttempts" "noNewTweetsCount initialRun \<le> 2"
    by (simp_all add: initialRun_def)
  from scrollLoop_stop_reason [OF run this] nr
  show "(addedCount r = 0 \<and> noNewTweetsCount r = 3) \<or> scrollAttempts r = maxScrollAttempts"
    by blast
next
  assume "fetchSingleUser P pg uid [] = Inr ts"
  then obtain r where r: "scrollLoop P pg uid [] initialRun = Inr r" "tweets r = ts"
    using fetchSingleUser_Inr by blast
  show "\<exists>n\<le>maxScrollAttempts. ts = map toTweet (fresh {} (discovered pg uid n))"
    using scrollLoop_no_boundary [OF r(1)] r(2) by simp
qed

theorem empty_start_time_witness:
  "fetchSingleUser refPlatform (exPage (\<lambda>k. oldArticles)) ''alice'' [] = Inr (tweets oldRun) \<and>
   scrollLoop refPlatform (exPage (\<lambda>k. oldArticles)) ''alice'' [] initialRun = Inr oldRun \<and>
   length (tweets oldRun) = 5 \<and>
   \<not> hasReachedStartTime oldRun \<and> noNewTweetsCount oldRun = 3 \<and>
   (\<exists>n\<le>maxScrollAttempts.
      tweets oldRun = map toTweet (fresh {} (discovered (exPage (\<lambda>k. oldArticles)) ''alice'' n))) \<and>
   fetchSingleUser refPlatform (exPage (\<lambda>k. oldArticles)) ''alice'' boundary = Inr []"
proof -
  note inst = empty_start_time_disables_boundary [where P = refPlatform
      and pg = "exPage (\<lambda>k. oldArticles)" and uid = "''alice''" and ts = "tweets oldRun"
      and r = oldRun]
  have run: "fetchSingleUser refPlatform (exPage (\<lambda>k. oldArticles)) ''alice'' [] = Inr (tweets oldRun)"
    by code_simp
  have loop: "scrollLoop refPlatform (exPage (\<lambda>k. oldArticles)) ''alice'' [] initialRun = Inr oldRun"
    by code_simp
  have prov: "\<exists>n\<le>maxScrollAttempts.
      tweets oldRun = map toTweet (fresh {} (discovered (exPage (\<lambda>k. oldArticles)) ''alice'' n))"
    using inst run by blast
  have stop: "\<not> hasReachedStartTime oldRun \<and>
      ((addedCount oldRun = 0 \<and> noNewTweetsCount oldRun = 3) \<or> scrollAttempts oldRun = maxScrollAttempts)"
    using inst loop by blast
  have n: "noNewTweetsCount oldRun = 3" "length (tweets oldRun) = 5"
    by (simp_all add: oldRun_def)
  have bounded: "fetchSingleUser refPlatform (exPage (\<lambda>k. oldArticles)) ''alice'' boundary = Inr []"
    by code_simp
  from run loop prov stop n bounded show ?thesis by blast
qed

section \<open>The orchestrator\<close>

subsection \<open>Auxiliary facts\<close>

lemma insertStable_mset: "mset (insertStable cmp x ys) = add_mset x (mset ys)"
  by (induction ys) simp_all

lemma stableSort_mset: "mset (stableSort cmp ts) = mset ts"
  by (induction ts) (simp_all add: stableSort_def insertStable_mset)

lemma conforming_refPlatform: "conforming refPlatform"
  by (simp add: conforming_def refPlatform_def stableSort_mset)

lemma sortTweets_mset: "conforming P \<Longrightarrow> mset (sortTweets P ts) = mset ts"
  by (simp add: conforming_def sortTweets_def)

lemma sortTweets_not_Nil:
  assumes "conforming P" and "ts \<noteq> []"
  shows "sortTweets P ts \<noteq> []"
proof
  assume "sortTweets P ts = []"
  then have "mset ts = {#}" using sortTweets_mset [OF assms(1), of ts] by simp
  then show False using assms(2) by simp
qed

lemma latestOf_Inr: "conforming P \<Longrightarrow> \<exists>l. latestOf P ts = Inr l"
  using sortTweets_not_Nil [of P ts]
  by (auto simp: latestOf_def split: list.splits)

lemma latestOf_None_iff: "latestOf P ts = Inr None \<longleftrightarrow> ts = []"
  by (auto simp: latestOf_def split: list.splits)

lemma attemptFetch_Inr:
  "attemptFetch P pg c = Inr r \<Longrightarrow>
     resUserId r = cfgUserId c \<and>
     fetchSingleUser P pg (cfgUserId c) (cfgStartTime c) = Inr (resTweets r) \<and>
     latestOf P (resTweets r) = Inr (latestTweetTime r)"
  by (auto simp: attemptFetch_def split: sum.splits)

lemma attemptFetch_fails:
  "fetchSingleUser P pg (cfgUserId c) (cfgStartTime c) = Inl e \<Longrightarrow> attemptFetch P pg c = Inl e"
  by (simp add: attemptFetch_def)

lemma attemptFetch_isl:
  "isl (fetchSingleUser P pg (cfgUserId c) (cfgStartTime c)) \<Longrightarrow> isl (attemptFetch P pg c)"
  by (auto simp add: attemptFetch_def split: sum.splits)

lemma attemptFetch_succeeds:
  assumes "conforming P" and "fetchSingleUser P pg (cfgUserId c) (cfgStartTime c) = Inr ts"
  shows "\<exists>latest. latestOf P ts = Inr latest \<and>
           attemptFetch P pg c
             = Inr \<lparr> resUserId = cfgUserId c, resTweets = ts, latestTweetTime = latest \<rparr>"
proof -
  obtain latest where "latestOf P ts = Inr latest"
    using latestOf_Inr [OF assms(1)] by blast
  then show ?thesis using assms(2) by (simp add: attemptFetch_def)
qed

lemma retryLoop_result:
  "\<exists>r. snd (retryLoop P pages maxR hk c a calls) = Inr r \<and> resUserId r = cfgUserId c \<and>
        latestOf P (resTweets r) = Inr (latestTweetTime r)"
proof (induction P pages maxR hk c a calls rule: retryLoop.induct)
  case (1 P pages maxR hk config attempt calls)
  show ?case
  proof (cases "attempt \<le> maxR")
    case False
    then show ?thesis
      by (simp add: retryLoop.simps [of P pages maxR hk config attempt calls] emptyResult_def
          latestOf_def)
  next
    case le: True
    show ?thesis
    proof (cases "attemptFetch P (pages attempt) config")
      case (Inr res)
      with le show ?thesis
        using attemptFetch_Inr [OF Inr]
        by (simp add: retryLoop.simps [of P pages maxR hk config attempt calls])
    next
      case (Inl e)
      with le "1.IH" show ?thesis
        by (simp add: retryLoop.simps [of P pages maxR hk config attempt calls]
            split: option.splits)
    qed
  qed
qed

lemma promiseAll_all_Inr:
  "\<forall>x\<in>set xs. \<exists>v. x = Inr v \<Longrightarrow> promiseAll xs = Inr (map projr xs)"
  by (induction xs) auto

lemma hookCalls_step:
  "a \<le> b \<Longrightarrow> hookCalls hk c errs a b =
     (case hk of None \<Rightarrow> [] | Some h \<Rightarrow> [(cfgUserId c, a, errs a)]) @ hookCalls hk c errs (a + 1) b"
  by (simp add: hookCalls_def upto_rec1 split: option.splits)

lemma hookCalls_empty: "b < a \<Longrightarrow> hookCalls hk c errs a b = []"
  by (simp add: hookCalls_def split: option.splits)

lemma retryLoop_past:
  "maxR < a \<Longrightarrow> retryLoop P pages maxR hk c a calls = (calls, Inr (emptyResult c))"
  by (simp add: retryLoop.simps [of P pages maxR hk c a calls])

lemma retryLoop_fail_then:
  assumes "\<forall>n. a \<le> n \<and> n < maxR \<longrightarrow> attemptFetch P (pages n) c = Inl (errs n)"
    and "a \<le> maxR"
  shows "retryLoop P pages maxR hk c a calls =
           (calls @ hookCalls hk c errs a (maxR - 1),
            case attemptFetch P (pages maxR) c of
              Inr res \<Rightarrow> Inr res
            | Inl e \<Rightarrow> Inr (emptyResult c))"
  using assms
proof (induction "nat (maxR - a)" arbitrary: a calls)
  case 0
  then have eq: "a = maxR" by simp
  show ?case
    unfolding eq
    by (simp add: retryLoop.simps [of P pages maxR hk c maxR calls]
        retryLoop.simps [of P pages maxR hk c "maxR + 1" calls] hookCalls_empty
        split: sum.splits)
next
  case (Suc k)
  then have lt: "a < maxR" and k: "k = nat (maxR - (a + 1))" by auto
  from Suc.prems lt have fail: "attemptFetch P (pages a) c = Inl (errs a)" by simp
  have rest: "\<forall>n. a + 1 \<le> n \<and> n < maxR \<longrightarrow> attemptFetch P (pages n) c = Inl (errs n)"
    using Suc.prems by simp
  have le: "a + 1 \<le> maxR" using lt by simp
  have step: "hookCalls hk c errs a (maxR - 1) =
      (case hk of None \<Rightarrow> [] | Some h \<Rightarrow> [(cfgUserId c, a, errs a)]) @ hookCalls hk c errs (a + 1) (maxR - 1)"
    using lt by (intro hookCalls_step) simp
  show ?case
  proof (cases hk)
    case None
    then show ?thesis
      using lt fail Suc.hyps(1) [OF k rest le, of calls]
      by (simp add: retryLoop.simps [of P pages maxR _ c a calls] hookCalls_def)
  next
    case (Some h)
    then show ?thesis
      using lt fail step Suc.hyps(1) [OF k rest le, of "calls @ [(cfgUserId c, a, errs a)]"]
      by (simp add: retryLoop.simps [of P pages maxR _ c a calls] split: option.splits)
  qed
qed

lemma retryLoop_hook_irrelevant:
  "retryLoop P pages maxR (Some h) c a calls = retryLoop P pages maxR (Some h') c a calls"
proof (induction "nat (maxR + 1 - a)" arbitrary: a calls)
  case 0
  then have "\<not> a \<le> maxR" by simp
  then show ?case
    by (simp add: retryLoop.simps [of P pages maxR _ c a calls])
next
  case (Suc k)
  then have k: "k = nat (maxR + 1 - (a + 1))" by auto
  have ih: "retryLoop P pages maxR (Some h) c (a + 1) cs = retryLoop P pages maxR (Some h') c (a + 1) cs"
    for cs
    using Suc.hyps(1) [OF k] .
  show ?case
    by (simp add: retryLoop.simps [of P pages maxR "Some h" c a calls]
        retryLoop.simps [of P pages maxR "Some h'" c a calls] ih retryLoop_past
        split: sum.splits option.splits)
qed

lemma retryLoop_all_fail:
  assumes "\<forall>n. a \<le> n \<and> n \<le> maxR \<longrightarrow> attemptFetch P (pages n) c = Inl (errs n)"
  shows "snd (retryLoop P pages maxR hk c a calls) = Inr (emptyResult c)"
proof (cases "a \<le> maxR")
  case True
  have "\<forall>n. a \<le> n \<and> n < maxR \<longrightarrow> attemptFetch P (pages n) c = Inl (errs n)"
    using assms by simp
  moreover have "attemptFetch P (pages maxR) c = Inl (errs maxR)"
    using assms True by simp
  ultimately show ?thesis
    using True by (simp add: retryLoop_fail_then [where errs = errs])
next
  case False
  then show ?thesis by (simp add: retryLoop_past)
qed

lemma retryLoop_first_success:
  assumes "\<forall>n. a \<le> n \<and> n < k \<longrightarrow> attemptFetch P (pages n) c = Inl (errs n)"
    and "a \<le> k" and "k \<le> maxR" and "attemptFetch P (pages k) c = Inr res"
  shows "retryLoop P pages maxR hk c a calls = (calls @ hookCalls hk c errs a (k - 1), Inr res)"
  using assms(1,2)
proof (induction "nat (k - a)" arbitrary: a calls)
  case 0
  then have eq: "a = k" by simp
  show ?case
    unfolding eq using assms(3,4)
    by (simp add: retryLoop.simps [of P pages maxR hk c k calls] hookCalls_empty)
next
  case (Suc j)
  then have lt: "a < k" and j: "j = nat (k - (a + 1))" by auto
  from Suc.prems lt have fail: "attemptFetch P (pages a) c = Inl (errs a)" by simp
  have rest: "\<forall>n. a + 1 \<le> n \<and> n < k \<longrightarrow> attemptFetch P (pages n) c = Inl (errs n)"
    using Suc.prems by simp
  have le: "a + 1 \<le> k" using lt by simp
  have ltm: "a < maxR" "a \<le> maxR" using lt assms(3) by simp_all
  have step: "hookCalls hk c errs a (k - 1) =
      (case hk of None \<Rightarrow> [] | Some h \<Rightarrow> [(cfgUserId c, a, errs a)]) @ hookCalls hk c errs (a + 1) (k - 1)"
    using lt by (intro hookCalls_step) simp
  show ?case
  proof (cases hk)
    case None
    then show ?thesis
      using ltm fail Suc.hyps(1) [OF j rest le, of calls]
      by (simp add: retryLoop.simps [of P pages maxR _ c a calls] hookCalls_def)
  next
    case (Some h)
    then show ?thesis
      using ltm fail step Suc.hyps(1) [OF j rest le, of "calls @ [(cfgUserId c, a, errs a)]"]
      by (simp add: retryLoop.simps [of P pages maxR _ c a calls] split: option.splits)
  qed
qed

lemma retryLoop_all_fail_calls:
  assumes "\<forall>n. a \<le> n \<and> n \<le> maxR \<longrightarrow> attemptFetch P (pages n) c = Inl (errs n)"
  shows "retryLoop P pages maxR hk c a calls
           = (calls @ hookCalls hk c errs a (maxR - 1), Inr (emptyResult c))"
proof (cases "a \<le> maxR")
  case True
  have "\<forall>n. a \<le> n \<and> n < maxR \<longrightarrow> attemptFetch P (pages n) c = Inl (errs n)"
    using assms by simp
  moreover have "attemptFetch P (pages maxR) c = Inl (errs maxR)"
    using assms True by simp
  ultimately show ?thesis
    using True by (simp add: retryLoop_fail_then [where errs = errs])
next
  case False
  then show ?thesis by (simp add: retryLoop_past hookCalls_empty)
qed

lemma fetchMultipleUser_tasks:
  "\<exists>rs. fetchMultipleUser P world userConfigs options = Inr rs \<and>
        length rs = length userConfigs \<and>
        (\<forall>i<length userConfigs.
           snd (fetchTask P (world i) options (userConfigs ! i)) = Inr (rs ! i))"
proof -
  let ?f = "\<lambda>(i, config). snd (fetchTask P (world i) options config)"
  let ?xs = "map ?f (enumerate 0 userConfigs)"
  have task: "\<exists>r. snd (fetchTask P pages options c) = Inr r" for pages c
    using retryLoop_result [of P pages "maxRetriesOf options" "beforeRetryOf options" c 1 "[]"]
    unfolding fetchTask_def by blast
  have all: "\<forall>x\<in>set ?xs. \<exists>v. x = Inr v"
  proof
    fix x assume "x \<in> set ?xs"
    then obtain i c where "x = snd (fetchTask P (world i) options c)" by auto
    then show "\<exists>v. x = Inr v" using task by simp
  qed
  have run: "fetchMultipleUser P world userConfigs options = Inr (map projr ?xs)"
    unfolding fetchMultipleUser_def by (rule promiseAll_all_Inr [OF all])
  have nth: "snd (fetchTask P (world i) options (userConfigs ! i)) = Inr (map projr ?xs ! i)"
    if "i < length userConfigs" for i
  proof -
    obtain r where r: "snd (fetchTask P (world i) options (userConfigs ! i)) = Inr r"
      using task by blast
    show ?thesis using that r by (simp add: nth_enumerate_eq)
  qed
  show ?thesis using run nth by simp
qed

lemma compareTweets_consistent:
  assumes "\<forall>t\<in>set ts. getTime P (time t) \<noteq> None"
  shows "consistentComparator (compareTweets P) ts"
  unfolding consistentComparator_def
proof (intro ballI)
  fix a b c assume "a \<in> set ts" "b \<in> set ts" "c \<in> set ts"
  then have "getTime P (time a) \<noteq> None" "getTime P (time b) \<noteq> None"
      "getTime P (time c) \<noteq> None"
    using assms by blast+
  then obtain ma mb mc where m: "getTime P (time a) = Some ma" "getTime P (time b) = Some mb"
      "getTime P (time c) = Some mc"
    by blast
  have cmp: "sortCompare (compareTweets P) x y = my - mx"
    if "getTime P (time x) = Some mx" "getTime P (time y) = Some my" for x y mx my
    using that by (simp add: sortCompare_def compareTweets_def)
  show "sortCompare (compareTweets P) a a = 0 \<and>
        (sortCompare (compareTweets P) a b = 0 \<longrightarrow> sortCompare (compareTweets P) b a = 0) \<and>
        (sortCompare (compareTweets P) a b = 0 \<and> sortCompare (compareTweets P) b c = 0
           \<longrightarrow> sortCompare (compareTweets P) a c = 0) \<and>
        (sortCompare (compareTweets P) a b < 0 \<and> sortCompare (compareTweets P) b c < 0
           \<longrightarrow> sortCompare (compareTweets P) a c < 0) \<and>
        (sortCompare (compareTweets P) a b > 0 \<and> sortCompare (compareTweets P) b c > 0
           \<longrightarrow> sortCompare (compareTweets P) a c > 0)"
    by (simp add: cmp [OF m(1) m(1)] cmp [OF m(1) m(2)] cmp [OF m(2) m(1)] cmp [OF m(2) m(3)]
        cmp [OF m(1) m(3)])
qed

lemma stableSort_head_max:
  assumes "\<forall>t\<in>set ts. getTime P (time t) \<noteq> None" and "ts \<noteq> []"
  shows "\<exists>x rest m. stableSort (compareTweets P) ts = x # rest \<and> x \<in> set ts \<and>
           getTime P (time x) = Some m \<and>
           (\<forall>y\<in>set ts. \<forall>n. getTime P (time y) = Some n \<longrightarrow> n \<le> m)"
  using assms
proof (induction ts)
  case Nil
  then show ?case by simp
next
  case (Cons t ts)
  obtain mt where mt: "getTime P (time t) = Some mt"
    using Cons.prems by auto
  show ?case
  proof (cases "ts = []")
    case True
    then show ?thesis using mt by (simp add: stableSort_def)
  next
    case False
    with Cons obtain x rest m where x: "stableSort (compareTweets P) ts = x # rest" "x \<in> set ts"
      "getTime P (time x) = Some m"
      "\<forall>y\<in>set ts. \<forall>n. getTime P (time y) = Some n \<longrightarrow> n \<le> m"
      by auto
    have unfold: "stableSort (compareTweets P) (t # ts) = insertStable (compareTweets P) t (x # rest)"
      using x(1) by (simp add: stableSort_def)
    show ?thesis
    proof (cases "m \<le> mt")
      case True
      then have hd: "stableSort (compareTweets P) (t # ts) = t # x # rest"
        using mt x(3) by (simp add: unfold sortCompare_def compareTweets_def)
      have "n \<le> mt" if "y \<in> set (t # ts)" "getTime P (time y) = Some n" for y n
      proof (cases "y = t")
        case True
        then show ?thesis using that mt by simp
      next
        case False
        then have "n \<le> m" using that x(4) by auto
        then show ?thesis using \<open>m \<le> mt\<close> by simp
      qed
      then show ?thesis using hd mt by auto
    next
      case False
      then have hd: "stableSort (compareTweets P) (t # ts)
          = x # insertStable (compareTweets P) t rest"
        using mt x(3) by (simp add: unfold sortCompare_def compareTweets_def)
      have "n \<le> m" if "y \<in> set (t # ts)" "getTime P (time y) = Some n" for y n
      proof (cases "y = t")
        case True
        then show ?thesis using that mt \<open>\<not> m \<le> mt\<close> by simp
      next
        case False
        then show ?thesis using that x(4) by auto
      qed
      then show ?thesis using hd x(2,3) by auto
    qed
  qed
qed

lemma sortTweets_parseable:
  assumes "conforming P" and "\<forall>t\<in>set ts. getTime P (time t) \<noteq> None"
  shows "sortTweets P ts = stableSort (compareTweets P) ts"
  using assms compareTweets_consistent [OF assms(2)]
  by (simp add: conforming_def sortTweets_def)

lemma latestOf_max:
  assumes "conforming P" and "latestOf P ts = Inr l"
    and "\<forall>t\<in>set ts. getTime P (time t) \<noteq> None" and "ts \<noteq> []"
  shows "\<exists>x\<in>set ts. \<exists>m. l = Some (time x) \<and> getTime P (time x) = Some m \<and>
           (\<forall>y\<in>set ts. \<forall>n. getTime P (time y) = Some n \<longrightarrow> n \<le> m)"
proof -
  obtain x rest m where x: "stableSort (compareTweets P) ts = x # rest" "x \<in> set ts"
      "getTime P (time x) = Some m"
      "\<forall>y\<in>set ts. \<forall>n. getTime P (time y) = Some n \<longrightarrow> n \<le> m"
    using stableSort_head_max [OF assms(3,4)] by blast
  have "sortTweets P ts = x # rest"
    using sortTweets_parseable [OF assms(1,3)] x(1) by simp
  then have "l = Some (time x)"
    using assms(2,4) by (simp add: latestOf_def)
  then show ?thesis using x by blast
qed

lemma latestOf_undated_first:
  assumes "conforming P" and "getTime P (time a) = None"
  shows "latestOf P [a, b] = Inr (Some (time a))"
proof -
  have zero: "sortCompare (compareTweets P) x y = 0" if "x \<in> set [a, b]" "y \<in> set [a, b]" for x y
    using that assms(2)
    by (auto simp add: sortCompare_def compareTweets_def split: option.splits)
  have "consistentComparator (compareTweets P) [a, b]"
    unfolding consistentComparator_def using zero by simp
  then have "sortTweets P [a, b] = stableSort (compareTweets P) [a, b]"
    using assms(1) by (simp add: conforming_def sortTweets_def)
  also have "\<dots> = [a, b]"
    using zero [of a b] by (simp add: stableSort_def)
  finally show ?thesis by (simp add: latestOf_def)
qed

subsection \<open>Completeness of the result array\<close>

text \<open>Claim C1.  For every list of jobs, of any length, \<^verbatim>\<open>fetchMultipleUser\<close> fulfils (it
  never rejects) with a list that has one result per job, the \<open>i\<close>-th result carrying the
  \<open>i\<close>-th job's user id; a job all of whose attempts fail is reported as the empty result
  \<^verbatim>\<open>{tweets: [], latestTweetTime: null}\<close>.\<close>

theorem fetchMultipleUser_complete:
  "(\<exists>rs. fetchMultipleUser P world userConfigs options = Inr rs \<and>
        length rs = length userConfigs \<and>
        (\<forall>i<length userConfigs.
           resUserId (rs ! i) = cfgUserId (userConfigs ! i) \<and>
           ((\<forall>n. 1 \<le> n \<and> n \<le> maxRetriesOf options \<longrightarrow>
                 isl (fetchSingleUser P (world i n) (cfgUserId (userConfigs ! i))
                        (cfgStartTime (userConfigs ! i))))
            \<longrightarrow> rs ! i = emptyResult (userConfigs ! i)))) \<and>
   emptyResult c = \<lparr> resUserId = cfgUserId c, resTweets = [], latestTweetTime = None \<rparr>"
proof (rule conjI)
  show "emptyResult c = \<lparr> resUserId = cfgUserId c, resTweets = [], latestTweetTime = None \<rparr>"
    by (simp add: emptyResult_def)
next
  obtain rs where rs: "fetchMultipleUser P world userConfigs options = Inr rs"
      "length rs = length userConfigs"
      "\<forall>i<length userConfigs. snd (fetchTask P (world i) options (userConfigs ! i)) = Inr (rs ! i)"
    using fetchMultipleUser_tasks by blast
  have "resUserId (rs ! i) = cfgUserId (userConfigs ! i) \<and>
        ((\<forall>n. 1 \<le> n \<and> n \<le> maxRetriesOf options \<longrightarrow>
              isl (fetchSingleUser P (world i n) (cfgUserId (userConfigs ! i))
                     (cfgStartTime (userConfigs ! i))))
         \<longrightarrow> rs ! i = emptyResult (userConfigs ! i))"
    if i: "i < length userConfigs" for i
  proof -
    let ?c = "userConfigs ! i"
    have task: "snd (fetchTask P (world i) options ?c) = Inr (rs ! i)"
      using rs(3) i by simp
    have uid: "resUserId (rs ! i) = cfgUserId ?c"
      using retryLoop_result [of P "world i" "maxRetriesOf options" "beforeRetryOf options" ?c 1 "[]"]
        task by (auto simp: fetchTask_def)
    have exhausted: "rs ! i = emptyResult ?c"
      if fail: "\<forall>n. 1 \<le> n \<and> n \<le> maxRetriesOf options \<longrightarrow>
                 isl (fetchSingleUser P (world i n) (cfgUserId ?c) (cfgStartTime ?c))"
    proof -
      let ?errs = "\<lambda>n. projl (fetchSingleUser P (world i n) (cfgUserId ?c) (cfgStartTime ?c))"
      have "\<forall>n. 1 \<le> n \<and> n \<le> maxRetriesOf options \<longrightarrow>
              attemptFetch P (world i n) ?c = Inl (?errs n)"
        using fail by (auto intro!: attemptFetch_fails)
      then have "snd (fetchTask P (world i) options ?c) = Inr (emptyResult ?c)"
        unfolding fetchTask_def by (rule retryLoop_all_fail)
      with task show ?thesis by simp
    qed
    show ?thesis using uid exhausted by blast
  qed
  with rs(1,2) show "\<exists>rs. fetchMultipleUser P world userConfigs options = Inr rs \<and>
        length rs = length userConfigs \<and>
        (\<forall>i<length userConfigs.
           resUserId (rs ! i) = cfgUserId (userConfigs ! i) \<and>
           ((\<forall>n. 1 \<le> n \<and> n \<le> maxRetriesOf options \<longrightarrow>
                 isl (fetchSingleUser P (world i n) (cfgUserId (userConfigs ! i))
                        (cfgStartTime (userConfigs ! i))))
            \<longrightarrow> rs ! i = emptyResult (userConfigs ! i)))"
    by blast
qed

theorem fetchMultipleUser_complete_witness:
  "fetchMultipleUser refPlatform exWorld [cfgAlice, cfgBob] None
     = Inr [aliceResult, emptyResult cfgBob] \<and>
   fetchMultipleUser refPlatform exWorld [] None = Inr [] \<and>
   (\<exists>rs. fetchMultipleUser refPlatform exWorld [cfgAlice, cfgBob] None = Inr rs \<and>
      length rs = 2 \<and> resUserId (rs ! 0) = ''alice'' \<and> resUserId (rs ! 1) = ''bob'' \<and>
      rs ! 1 = emptyResult cfgBob)"
proof -
  obtain rs where rs: "fetchMultipleUser refPlatform exWorld [cfgAlice, cfgBob] None = Inr rs"
      "length rs = length [cfgAlice, cfgBob]"
      "\<forall>i<length [cfgAlice, cfgBob].
         resUserId (rs ! i) = cfgUserId ([cfgAlice, cfgBob] ! i) \<and>
         ((\<forall>n. 1 \<le> n \<and> n \<le> maxRetriesOf None \<longrightarrow>
               isl (fetchSingleUser refPlatform (exWorld i n) (cfgUserId ([cfgAlice, cfgBob] ! i))
                      (cfgStartTime ([cfgAlice, cfgBob] ! i))))
          \<longrightarrow> rs ! i = emptyResult ([cfgAlice, cfgBob] ! i))"
    using fetchMultipleUser_complete [of refPlatform exWorld "[cfgAlice, cfgBob]" None] by blast
  have fail: "isl (fetchSingleUser refPlatform (exWorld 1 n) (cfgUserId cfgBob) (cfgStartTime cfgBob))"
    for n
    by (simp add: exWorld_def brokenPage_def exPage_def fetchSingleUser_def)
  have a: "resUserId (rs ! 0) = ''alice''"
    using rs(3) [rule_format, of 0] by (simp add: cfgAlice_def)
  have b: "resUserId (rs ! 1) = ''bob'' \<and> rs ! 1 = emptyResult cfgBob"
    using rs(3) [rule_format, of 1] fail by (simp add: cfgBob_def emptyResult_def)
  have run: "fetchMultipleUser refPlatform exWorld [cfgAlice, cfgBob] None
               = Inr [aliceResult, emptyResult cfgBob]"
    by code_simp
  have none: "fetchMultipleUser refPlatform exWorld [] None = Inr []"
    by code_simp
  show ?thesis using rs(1,2) a b run none by (auto simp add: emptyResult_def cfgBob_def)
qed

subsection \<open>Retry\<close>

text \<open>Claim C4.  The number of attempts is \<^verbatim>\<open>options.maxRetries\<close>, or 3 when the options or
  that field are absent, and the hook is \<^verbatim>\<open>options.beforeRetry\<close>.  Under a policy of
  \<open>maxRetries\<close> attempts: when the collector fails on the attempts before attempt \<open>k\<close> and
  succeeds on attempt \<open>k\<close>, for \<open>k\<close> up to \<open>maxRetries\<close> and so for the last attempt,
  the job returns that attempt's posts and the hook, if there is one, has been invoked once per
  failed attempt, that is \<open>k - 1\<close> times, with the attempt number and the error of that
  attempt; when every attempt fails the job's result is the empty result, and the hook has
  been invoked after every failed attempt but the last; and whatever a hook returns or throws,
  the job proceeds in the same way.  (The success case is stated for a platform whose
  \<^verbatim>\<open>sort\<close> conforms to the standard, so that the sorted copy of a non-empty list has a first
  element.)\<close>

theorem retry_policy:
  "maxRetriesOf None = 3 \<and>
   maxRetriesOf (Some opts) = (case maxRetries opts of None \<Rightarrow> 3 | Some n \<Rightarrow> n) \<and>
   beforeRetryOf None = None \<and> beforeRetryOf (Some opts) = beforeRetry opts \<and>
   resTweets (emptyResult c) = [] \<and> latestTweetTime (emptyResult c) = None \<and>
   (conforming P \<and> 1 \<le> k \<and> k \<le> maxRetriesOf options \<and>
    (\<forall>n. 1 \<le> n \<and> n < k \<longrightarrow>
         fetchSingleUser P (pages n) (cfgUserId c) (cfgStartTime c) = Inl (errs n)) \<and>
    fetchSingleUser P (pages k) (cfgUserId c) (cfgStartTime c) = Inr ts
    \<longrightarrow> (\<exists>latest. latestOf P ts = Inr latest \<and>
           snd (fetchTask P pages options c)
             = Inr \<lparr> resUserId = cfgUserId c, resTweets = ts, latestTweetTime = latest \<rparr>) \<and>
         fst (fetchTask P pages options c) = hookCalls (beforeRetryOf options) c errs 1 (k - 1) \<and>
         (beforeRetryOf options \<noteq> None \<longrightarrow>
            length (fst (fetchTask P pages options c)) = nat (k - 1))) \<and>
   ((\<forall>n. 1 \<le> n \<and> n \<le> maxRetriesOf options \<longrightarrow>
         fetchSingleUser P (pages n) (cfgUserId c) (cfgStartTime c) = Inl (errs n))
    \<longrightarrow> snd (fetchTask P pages options c) = Inr (emptyResult c) \<and>
         fst (fetchTask P pages options c)
           = hookCalls (beforeRetryOf options) c errs 1 (maxRetriesOf options - 1)) \<and>
   (\<forall>h h'. retryLoop P pages (maxRetriesOf options) (Some h) c 1 []
             = retryLoop P pages (maxRetriesOf options) (Some h') c 1 [])"
proof (intro conjI impI allI)
  show "maxRetriesOf None = 3"
    "maxRetriesOf (Some opts) = (case maxRetries opts of None \<Rightarrow> 3 | Some n \<Rightarrow> n)"
    by (simp_all add: maxRetriesOf_def)
  show "beforeRetryOf None = None" "beforeRetryOf (Some opts) = beforeRetry opts"
    by (simp_all add: beforeRetryOf_def)
  show "resTweets (emptyResult c) = []" "latestTweetTime (emptyResult c) = None"
    by (simp_all add: emptyResult_def)
next
  assume a: "conforming P \<and> 1 \<le> k \<and> k \<le> maxRetriesOf options \<and>
    (\<forall>n. 1 \<le> n \<and> n < k \<longrightarrow>
         fetchSingleUser P (pages n) (cfgUserId c) (cfgStartTime c) = Inl (errs n)) \<and>
    fetchSingleUser P (pages k) (cfgUserId c) (cfgStartTime c) = Inr ts"
  then have conf: "conforming P" and one: "1 \<le> k" and le: "k \<le> maxRetriesOf options"
    and good: "fetchSingleUser P (pages k) (cfgUserId c) (cfgStartTime c) = Inr ts"
    by simp_all
  obtain latest where latest: "latestOf P ts = Inr latest"
    and last: "attemptFetch P (pages k) c
      = Inr \<lparr> resUserId = cfgUserId c, resTweets = ts, latestTweetTime = latest \<rparr>"
    using attemptFetch_succeeds [OF conf good] by blast
  have fails: "\<forall>n. 1 \<le> n \<and> n < k \<longrightarrow> attemptFetch P (pages n) c = Inl (errs n)"
    using a by (auto intro!: attemptFetch_fails)
  have task: "fetchTask P pages options c
      = (hookCalls (beforeRetryOf options) c errs 1 (k - 1),
         Inr \<lparr> resUserId = cfgUserId c, resTweets = ts, latestTweetTime = latest \<rparr>)"
    using retryLoop_first_success [OF fails one le last, of "beforeRetryOf options" "[]"]
    by (simp add: fetchTask_def)
  show "\<exists>latest. latestOf P ts = Inr latest \<and>
           snd (fetchTask P pages options c)
             = Inr \<lparr> resUserId = cfgUserId c, resTweets = ts, latestTweetTime = latest \<rparr>"
    using latest task by simp
  show "fst (fetchTask P pages options c) = hookCalls (beforeRetryOf options) c errs 1 (k - 1)"
    using task by simp
  show "length (fst (fetchTask P pages options c)) = nat (k - 1)"
    if "beforeRetryOf options \<noteq> None"
    using task that by (auto simp: hookCalls_def)
next
  assume "\<forall>n. 1 \<le> n \<and> n \<le> maxRetriesOf options \<longrightarrow>
         fetchSingleUser P (pages n) (cfgUserId c) (cfgStartTime c) = Inl (errs n)"
  then have "\<forall>n. 1 \<le> n \<and> n \<le> maxRetriesOf options \<longrightarrow> attemptFetch P (pages n) c = Inl (errs n)"
    by (auto intro!: attemptFetch_fails)
  then have "fetchTask P pages options c
      = ([] @ hookCalls (beforeRetryOf options) c errs 1 (maxRetriesOf options - 1),
         Inr (emptyResult c))"
    unfolding fetchTask_def by (rule retryLoop_all_fail_calls)
  then show "snd (fetchTask P pages options c) = Inr (emptyResult c)"
    "fst (fetchTask P pages options c)
       = hookCalls (beforeRetryOf options) c errs 1 (maxRetriesOf options - 1)"
    by simp_all
next
  fix h h'
  show "retryLoop P pages (maxRetriesOf options) (Some h) c 1 []
          = retryLoop P pages (maxRetriesOf options) (Some h') c 1 []"
    by (rule retryLoop_hook_irrelevant)
qed

theorem retry_policy_witness:
  "conforming refPlatform \<and>
   maxRetriesOf (Some fiveOptions) = 5 \<and> maxRetriesOf (Some enabledOptions) = 3 \<and>
   fetchTask refPlatform fivePages (Some fiveOptions) cfgAlice
     = ([(''alice'', 1, Failure ''timeout''), (''alice'', 2, Failure ''timeout''),
         (''alice'', 3, Failure ''timeout''), (''alice'', 4, Failure ''timeout'')],
        Inr aliceResult) \<and>
   length (fst (fetchTask refPlatform fivePages (Some fiveOptions) cfgAlice)) = 4 \<and>
   fetchTask refPlatform fivePages (Some enabledOptions) cfgAlice = ([], Inr (emptyResult cfgAlice)) \<and>
   fetchTask refPlatform fivePages None cfgAlice = ([], Inr (emptyResult cfgAlice)) \<and>
   fetchTask refPlatform (\<lambda>n. brokenPage) (Some fiveOptions) cfgBob
     = ([(''bob'', 1, Failure ''timeout''), (''bob'', 2, Failure ''timeout''),
         (''bob'', 3, Failure ''timeout''), (''bob'', 4, Failure ''timeout'')],
        Inr (emptyResult cfgBob)) \<and>
   throwingHook ''alice'' 1 (Failure ''timeout'') = Some (Failure ''hook failed'')"
proof -
  let ?opts = "Some fiveOptions"
  let ?errs = "\<lambda>n::int. Failure ''timeout''"
  note inst = retry_policy [where opts = fiveOptions and options = ?opts and P = refPlatform
      and pages = fivePages and c = cfgAlice and errs = ?errs and ts = aliceTweets and k = 5]
  note inst_default = retry_policy [where opts = enabledOptions and options = "Some enabledOptions"
      and P = refPlatform and pages = fivePages and c = cfgAlice and errs = ?errs]
  note inst_none = retry_policy [where options = None
      and P = refPlatform and pages = fivePages and c = cfgAlice and errs = ?errs]
  note inst_bob = retry_policy [where opts = fiveOptions and options = ?opts and P = refPlatform
      and pages = "\<lambda>n. brokenPage" and c = cfgBob and errs = ?errs]
  have "maxRetriesOf ?opts = (case maxRetries fiveOptions of None \<Rightarrow> 3 | Some n \<Rightarrow> n)"
    using inst by blast
  then have maxR: "maxRetriesOf ?opts = 5"
    by (simp add: fiveOptions_def)
  have "maxRetriesOf (Some enabledOptions)
      = (case maxRetries enabledOptions of None \<Rightarrow> 3 | Some n \<Rightarrow> n)"
    using inst_default by blast
  then have maxD: "maxRetriesOf (Some enabledOptions) = 3"
    by (simp add: enabledOptions_def)
  have maxN: "maxRetriesOf None = 3"
    using inst_none by blast
  have "beforeRetryOf ?opts = beforeRetry fiveOptions"
    using inst by blast
  then have hk: "beforeRetryOf ?opts = Some throwingHook"
    by (simp add: fiveOptions_def)
  have "beforeRetryOf (Some enabledOptions) = beforeRetry enabledOptions"
    using inst_default by blast
  then have hkD: "beforeRetryOf (Some enabledOptions) = None"
    by (simp add: enabledOptions_def)
  have hkN: "beforeRetryOf None = None"
    using inst_none by blast
  have broken: "fetchSingleUser refPlatform brokenPage uid st = Inl (Failure ''timeout'')" for uid st
    by (simp add: brokenPage_def exPage_def fetchSingleUser_def)
  have fails: "\<forall>n. 1 \<le> n \<and> n < 5 \<longrightarrow>
      fetchSingleUser refPlatform (fivePages n) (cfgUserId cfgAlice) (cfgStartTime cfgAlice) = Inl (?errs n)"
    by (simp add: fivePages_def broken)
  have good: "fetchSingleUser refPlatform (fivePages 5) (cfgUserId cfgAlice)
      (cfgStartTime cfgAlice) = Inr aliceTweets"
    by code_simp
  have three: "\<forall>n. 1 \<le> n \<and> n \<le> maxRetriesOf (Some enabledOptions) \<longrightarrow>
      fetchSingleUser refPlatform (fivePages n) (cfgUserId cfgAlice) (cfgStartTime cfgAlice) = Inl (?errs n)"
    by (simp add: maxD fivePages_def broken)
  have three': "\<forall>n. 1 \<le> n \<and> n \<le> maxRetriesOf None \<longrightarrow>
      fetchSingleUser refPlatform (fivePages n) (cfgUserId cfgAlice) (cfgStartTime cfgAlice) = Inl (?errs n)"
    by (simp add: maxN fivePages_def broken)
  have allfail: "\<forall>n. 1 \<le> n \<and> n \<le> maxRetriesOf ?opts \<longrightarrow>
      fetchSingleUser refPlatform ((\<lambda>n. brokenPage) n) (cfgUserId cfgBob) (cfgStartTime cfgBob) = Inl (?errs n)"
    by (simp add: broken)
  have range: "(1::int) \<le> 5 \<and> 5 \<le> maxRetriesOf ?opts" by (simp add: maxR)
  have hk': "beforeRetryOf ?opts \<noteq> None"
    by (simp add: hk)
  have "length (fst (fetchTask refPlatform fivePages ?opts cfgAlice)) = nat (5 - 1)"
    using inst conforming_refPlatform range fails good hk' by blast
  then have len: "length (fst (fetchTask refPlatform fivePages ?opts cfgAlice)) = 4"
    by simp
  have "snd (fetchTask refPlatform fivePages (Some enabledOptions) cfgAlice)
      = Inr (emptyResult cfgAlice) \<and>
      fst (fetchTask refPlatform fivePages (Some enabledOptions) cfgAlice)
      = hookCalls (beforeRetryOf (Some enabledOptions)) cfgAlice ?errs 1
          (maxRetriesOf (Some enabledOptions) - 1)"
    using inst_default three by blast
  then have default: "fetchTask refPlatform fivePages (Some enabledOptions) cfgAlice
      = ([], Inr (emptyResult cfgAlice))"
    by (simp add: hkD hookCalls_def prod_eq_iff)
  have "snd (fetchTask refPlatform fivePages None cfgAlice) = Inr (emptyResult cfgAlice) \<and>
      fst (fetchTask refPlatform fivePages None cfgAlice)
      = hookCalls (beforeRetryOf None) cfgAlice ?errs 1 (maxRetriesOf None - 1)"
    using inst_none three' by blast
  then have none: "fetchTask refPlatform fivePages None cfgAlice = ([], Inr (emptyResult cfgAlice))"
    by (simp add: hkN hookCalls_def prod_eq_iff)
  have "snd (fetchTask refPlatform (\<lambda>n. brokenPage) ?opts cfgBob) = Inr (emptyResult cfgBob) \<and>
      fst (fetchTask refPlatform (\<lambda>n. brokenPage) ?opts cfgBob)
      = hookCalls (beforeRetryOf ?opts) cfgBob ?errs 1 (maxRetriesOf ?opts - 1)"
    using inst_bob allfail by blast
  then have empty: "fetchTask refPlatform (\<lambda>n. brokenPage) ?opts cfgBob
     = ([(''bob'', 1, Failure ''timeout''), (''bob'', 2, Failure ''timeout''),
         (''bob'', 3, Failure ''timeout''), (''bob'', 4, Failure ''timeout'')],
        Inr (emptyResult cfgBob))"
    by (simp add: hk maxR hookCalls_def prod_eq_iff cfgBob_def upto_rec1)
  have run: "fetchTask refPlatform fivePages ?opts cfgAlice
     = ([(''alice'', 1, Failure ''timeout''), (''alice'', 2, Failure ''timeout''),
         (''alice'', 3, Failure ''timeout''), (''alice'', 4, Failure ''timeout'')], Inr aliceResult)"
    by code_simp
  show ?thesis
    using conforming_refPlatform maxR maxD len default none empty run by (simp add: throwingHook_def)
qed

subsection \<open>The latest tweet time\<close>

lemma fetchMultipleUser_member:
  assumes "fetchMultipleUser P world userConfigs options = Inr rs" and "r \<in> set rs"
  shows "latestOf P (resTweets r) = Inr (latestTweetTime r)"
proof -
  obtain rs' where rs': "fetchMultipleUser P world userConfigs options = Inr rs'"
      "length rs' = length userConfigs"
      "\<forall>i<length userConfigs. snd (fetchTask P (world i) options (userConfigs ! i)) = Inr (rs' ! i)"
    using fetchMultipleUser_tasks by blast
  with assms have eq: "rs' = rs" by simp
  obtain i where i: "i < length rs" "rs ! i = r"
    using assms(2) by (auto simp: in_set_conv_nth)
  have "snd (fetchTask P (world i) options (userConfigs ! i)) = Inr r"
    using rs'(2,3) i eq by auto
  then show ?thesis
    using retryLoop_result [of P "world i" "maxRetriesOf options" "beforeRetryOf options"
        "userConfigs ! i" 1 "[]"]
    by (auto simp: fetchTask_def)
qed

text \<open>Where the code does compute the maximum: \<^verbatim>\<open>latestTweetTime\<close> is \<^verbatim>\<open>null\<close> exactly
  when the post list is empty, and when the \<^verbatim>\<open>time\<close> of every returned post is a timestamp
  it is the \<^verbatim>\<open>time\<close> of a post whose timestamp is the maximum, whatever the order of the
  posts.\<close>

lemma latestTweetTime_parseable:
  assumes "conforming P"
    and "fetchMultipleUser P world userConfigs options = Inr rs" and "r \<in> set rs"
  shows "(latestTweetTime r = None \<longleftrightarrow> resTweets r = []) \<and>
         ((\<forall>t\<in>set (resTweets r). getTime P (time t) \<noteq> None) \<longrightarrow>
            latestIsMax P (resTweets r) (latestTweetTime r))"
proof -
  have l: "latestOf P (resTweets r) = Inr (latestTweetTime r)"
    using assms(2,3) by (rule fetchMultipleUser_member)
  have none: "latestTweetTime r = None \<longleftrightarrow> resTweets r = []"
    using l latestOf_None_iff [of P "resTweets r"] by auto
  have "latestIsMax P (resTweets r) (latestTweetTime r)"
    if parse: "\<forall>t\<in>set (resTweets r). getTime P (time t) \<noteq> None"
  proof (cases "resTweets r = []")
    case True
    then show ?thesis using none by (simp add: latestIsMax_def)
  next
    case False
    obtain x m where x: "x \<in> set (resTweets r)" "latestTweetTime r = Some (time x)"
        "getTime P (time x) = Some m"
        "\<forall>y\<in>set (resTweets r). \<forall>n. getTime P (time y) = Some n \<longrightarrow> n \<le> m"
      using latestOf_max [OF assms(1) l parse False] by blast
    then show ?thesis
      by (auto simp: latestIsMax_def list_all_iff split: option.splits)
  qed
  with none show ?thesis by blast
qed

text \<open>Claim C5.  \<^verbatim>\<open>latestTweetTime\<close> is to be the maximum \<^verbatim>\<open>time\<close> over the returned posts.
  On a profile that renders a post whose \<^verbatim>\<open>datetime\<close> attribute is empty above a post dated
  \<^verbatim>\<open>2026-01-12T09:30:00.000Z\<close>, the orchestrator returns both posts and the empty string as
  \<^verbatim>\<open>latestTweetTime\<close>, which is not the maximum: the comparator returns \<^verbatim>\<open>NaN\<close> for the
  pair, which the sort reads as equal, and the first post stays first.\<close>

theorem latestTweetTime_undated:
  "fetchMultipleUser refPlatform (\<lambda>i n. undatedPage) [cfgAlice] None = Inr [undatedResult] \<and>
   map time (resTweets undatedResult) = [[], ''2026-01-12T09:30:00.000Z''] \<and>
   latestTweetTime undatedResult = Some [] \<and>
   \<not> latestIsMax refPlatform (resTweets undatedResult) (latestTweetTime undatedResult) \<and>
   getTime refPlatform [] = None \<and>
   getTime refPlatform ''2026-01-12T09:30:00.000Z'' = Some 1768210200000 \<and>
   compareTweets refPlatform (resTweets undatedResult ! 0) (resTweets undatedResult ! 1) = None"
  by code_simp

section \<open>The materializer\<close>

lemma downloadImagesFrom_length [simp]:
  "length (downloadImagesFrom P W p tweet index urls) = length urls"
  by (induction urls arbitrary: index) (simp_all add: Let_def)

lemma downloadImagesFrom_nth:
  "i < length urls \<Longrightarrow>
     downloadImagesFrom P W p tweet index urls ! i
       = (if downloaded W p (index + i) (urls ! i)
          then posixJoin (userId tweet)
                 (createImageFilename P (dateNow W p (index + i)) (time tweet) (index + i + 1) (urls ! i))
          else urls ! i)"
proof (induction urls arbitrary: index i)
  case Nil
  then show ?case by simp
next
  case (Cons u urls)
  show ?case
  proof (cases i)
    case 0
    then show ?thesis
      by (simp add: Let_def downloaded_def split: sum.splits option.splits)
  next
    case (Suc j)
    then have "j < length urls" using Cons.prems by simp
    from Cons.IH [OF this, of "index + 1"] Suc show ?thesis
      by (simp add: Let_def)
  qed
qed

lemma downloadTweetsFrom_shape:
  "downloadTweetsFrom P W p ts = Inr out \<Longrightarrow>
     length out = length ts \<and>
     (\<forall>q<length ts. out ! q
        = (ts ! q)\<lparr>imageUrls := downloadImagesFrom P W (p + q) (ts ! q) 0 (imageUrls (ts ! q))\<rparr>)"
proof (induction ts arbitrary: p out)
  case Nil
  then show ?case by simp
next
  case (Cons t ts)
  from Cons.prems obtain out' where out': "downloadTweetsFrom P W (p + 1) ts = Inr out'"
      "out = (if imageUrls t = [] then t
              else t\<lparr>imageUrls := downloadImagesFrom P W p t 0 (imageUrls t)\<rparr>) # out'"
    by (auto simp add: Let_def split: if_splits sum.splits option.splits)
  have hd: "(if imageUrls t = [] then t
             else t\<lparr>imageUrls := downloadImagesFrom P W p t 0 (imageUrls t)\<rparr>)
            = t\<lparr>imageUrls := downloadImagesFrom P W p t 0 (imageUrls t)\<rparr>"
    by simp
  from Cons.IH [OF out'(1)] have ih: "length out' = length ts"
    "\<forall>q<length ts. out' ! q
        = (ts ! q)\<lparr>imageUrls := downloadImagesFrom P W (p + 1 + q) (ts ! q) 0 (imageUrls (ts ! q))\<rparr>"
    by simp_all
  show ?case
  proof (intro conjI allI impI)
    show "length out = length (t # ts)" using out'(2) ih(1) by simp
  next
    fix q assume "q < length (t # ts)"
    then show "out ! q = ((t # ts) ! q)\<lparr>imageUrls :=
        downloadImagesFrom P W (p + q) ((t # ts) ! q) 0 (imageUrls ((t # ts) ! q))\<rparr>"
      using out'(2) ih(2) hd by (cases q) simp_all
  qed
qed

lemma downloadTweetsFrom_returns:
  "(\<forall>q<length ts. imageUrls (ts ! q) \<noteq> [] \<longrightarrow> mkdirUserError W (p + q) = None) \<Longrightarrow>
     \<exists>out. downloadTweetsFrom P W p ts = Inr out"
proof (induction ts arbitrary: p)
  case Nil
  then show ?case by simp
next
  case (Cons t ts)
  have "\<forall>q<length ts. imageUrls (ts ! q) \<noteq> [] \<longrightarrow> mkdirUserError W (p + 1 + q) = None"
  proof (intro allI impI)
    fix q assume "q < length ts" "imageUrls (ts ! q) \<noteq> []"
    then show "mkdirUserError W (p + 1 + q) = None"
      using Cons.prems [rule_format, of "Suc q"] by simp
  qed
  from Cons.IH [OF this] obtain out' where "downloadTweetsFrom P W (p + 1) ts = Inr out'"
    by blast
  moreover have "imageUrls t \<noteq> [] \<longrightarrow> mkdirUserError W p = None"
    using Cons.prems [rule_format, of 0] by simp
  ultimately show ?case by (auto simp add: Let_def)
qed

lemma splitSlash_no_slash: "\<not> list_ex isSlash s \<Longrightarrow> splitSlash s = [s]"
  by (induction s) simp_all

lemma splitSlash_append:
  "\<not> list_ex isSlash a \<Longrightarrow> splitSlash (a @ CHR ''/'' # b) = a # splitSlash b"
  by (induction a) (simp_all add: isSlash_def)

lemma posixJoin_plain:
  assumes "plainSegment a" and "plainSegment b"
  shows "posixJoin a b = a @ ''/'' @ b"
proof -
  have a: "a \<noteq> []" "\<not> list_ex isSlash a" "a \<noteq> ''.''" "a \<noteq> ''..''"
    and b: "b \<noteq> []" "\<not> list_ex isSlash b" "b \<noteq> ''.''" "b \<noteq> ''..''"
    using assms by (simp_all add: plainSegment_def)
  have split: "splitSlash (a @ CHR ''/'' # b) = [a, b]"
    using a(2) b(2) by (simp add: splitSlash_append splitSlash_no_slash)
  have norm: "normalizeString (a @ ''/'' @ b) True = a @ ''/'' @ b"
    using a b by (simp add: normalizeString_def split normStep_def)
  have hd: "\<not> isSlash (hd (a @ ''/'' @ b))"
    using a(1,2) by (cases a) simp_all
  have last: "\<not> isSlash (last (a @ ''/'' @ b))"
    using b(1,2) by (simp add: list_ex_iff)
  have "normalize (a @ ''/'' @ b) = a @ ''/'' @ b"
    using hd last norm a(1) by (simp add: normalize_def Let_def)
  then show ?thesis using a(1) b(1) by (simp add: posixJoin_def)
qed

lemma digitChar_plain: "\<not> isSlash (digitChar d) \<and> \<not> isDot (digitChar d)"
proof -
  have "nat (d mod 10) < length ''0123456789''" by simp
  then have "digitChar d \<in> set ''0123456789''"
    unfolding digitChar_def by (rule nth_mem)
  then show ?thesis by (auto simp add: isSlash_def isDot_def)
qed

lemma showDigits_plain:
  "showDigits i \<noteq> [] \<and> (\<forall>c\<in>set (showDigits i). \<not> isSlash c \<and> \<not> isDot c)"
proof (induction i rule: showDigits.induct)
  case (1 i)
  show ?case
  proof (cases "i < 10")
    case True
    then have "showDigits i = [digitChar i]" by (subst showDigits.simps) simp
    then show ?thesis using digitChar_plain [of i] by simp
  next
    case False
    then have "showDigits i = showDigits (i div 10) @ [digitChar i]"
      by (subst showDigits.simps) simp
    then show ?thesis using "1.IH" [OF False] digitChar_plain [of i] by simp
  qed
qed

lemma showInt_plain:
  "showInt i \<noteq> [] \<and> (\<forall>c\<in>set (showInt i). \<not> isSlash c \<and> \<not> isDot c)"
proof (cases "i < 0")
  case True
  then have "showInt i = CHR ''-'' # showDigits (- i)" by (simp add: showInt_def)
  then show ?thesis using showDigits_plain [of "- i"] by (simp add: isSlash_def isDot_def)
next
  case False
  then have "showInt i = showDigits i" by (simp add: showInt_def)
  then show ?thesis using showDigits_plain [of i] by simp
qed

lemma showNat_plain: "\<forall>c\<in>set (showNat n). \<not> isSlash c"
  using showDigits_plain [of "int n"] by (simp add: showNat_def)

lemma baseSegment_no_slash: "c \<in> set (baseSegment p) \<Longrightarrow> \<not> isSlash c"
  unfolding baseSegment_def by (auto dest: set_takeWhileD)

lemma extname_no_slash: "c \<in> set (extname p) \<Longrightarrow> \<not> isSlash c"
proof -
  assume c: "c \<in> set (extname p)"
  let ?base = "baseSegment p"
  let ?tail = "rev (takeWhile (\<lambda>c. \<not> isDot c) (rev ?base))"
  from c have "c = CHR ''.'' \<or> c \<in> set ?tail"
    by (auto simp add: extname_def Let_def split: if_splits)
  then show ?thesis
  proof
    assume "c = CHR ''.''"
    then show ?thesis by (simp add: isSlash_def)
  next
    assume "c \<in> set ?tail"
    then have "c \<in> set ?base" by (auto dest: set_takeWhileD)
    then show ?thesis by (rule baseSegment_no_slash)
  qed
qed

lemma getImageExtension_no_slash: "c \<in> set (getImageExtension P url) \<Longrightarrow> \<not> isSlash c"
proof -
  assume c: "c \<in> set (getImageExtension P url)"
  have jpg: "\<not> isSlash c" if "c \<in> set ''.jpg''"
    using that by (auto simp add: isSlash_def)
  show ?thesis
  proof (cases "urlPathname P url")
    case None
    then show ?thesis using c jpg by (simp add: getImageExtension_def)
  next
    case (Some pathname)
    show ?thesis
    proof (cases "extname pathname = []")
      case True
      then show ?thesis using c jpg Some by (simp add: getImageExtension_def)
    next
      case False
      then have "c \<in> set (extname pathname)"
        using c Some by (simp add: getImageExtension_def)
      then show ?thesis by (rule extname_no_slash)
    qed
  qed
qed

lemma createImageFilename_plain: "plainSegment (createImageFilename P now tm index url)"
proof -
  let ?secs = "case getTime P tm of Some millis \<Rightarrow> millis div 1000 | None \<Rightarrow> now div 1000"
  let ?f = "createImageFilename P now tm index url"
  have f: "?f = showInt ?secs @ CHR ''-'' # showNat index @ getImageExtension P url"
    by (simp add: createImageFilename_def)
  obtain d ds where s: "showInt ?secs = d # ds"
    using showInt_plain [of ?secs] by (cases "showInt ?secs") auto
  have d: "\<not> isDot d"
    using showInt_plain [of ?secs] s by simp
  have ne: "?f \<noteq> []" using f s by simp
  have hd: "?f = d # ds @ CHR ''-'' # showNat index @ getImageExtension P url"
    using f s by simp
  have "\<not> isSlash c" if "c \<in> set ?f" for c
  proof -
    from that f have "c \<in> set (showInt ?secs) \<or> c = CHR ''-'' \<or> c \<in> set (showNat index) \<or>
        c \<in> set (getImageExtension P url)"
      by auto
    then show ?thesis
      using showInt_plain [of ?secs] showNat_plain [of index] getImageExtension_no_slash [of c P url]
      by (auto simp add: isSlash_def)
  qed
  then have noslash: "\<not> list_ex isSlash ?f" by (simp add: list_ex_iff)
  have "?f \<noteq> ''.''" "?f \<noteq> ''..''" using hd d by (auto simp add: isDot_def)
  then show ?thesis using ne noslash unfolding plainSegment_def by blast
qed

lemma transform_enabled:
  "downloadImages options = Some True \<Longrightarrow> mkdirRootError W = None \<Longrightarrow>
   downloadPageError W = None \<Longrightarrow>
     transformTweetImages P W ts options = downloadTweetsFrom P W 0 ts"
  by (simp add: transformTweetImages_def createTweetImageDownloader_def downloadTweetsWithPage_def)

lemma downloadTweetsFrom_mkdir_fails:
  assumes "q < length ts" and "imageUrls (ts ! q) \<noteq> []" and "mkdirUserError W (p + q) = Some e"
    and "\<forall>q'<q. imageUrls (ts ! q') \<noteq> [] \<longrightarrow> mkdirUserError W (p + q') = None"
  shows "downloadTweetsFrom P W p ts = Inl e"
  using assms
proof (induction ts arbitrary: p q)
  case Nil
  then show ?case by simp
next
  case (Cons t ts)
  show ?case
  proof (cases q)
    case 0
    then show ?thesis using Cons.prems by simp
  next
    case (Suc j)
    have j: "j < length ts" "imageUrls (ts ! j) \<noteq> []" "mkdirUserError W (p + 1 + j) = Some e"
      using Cons.prems Suc by simp_all
    have before: "\<forall>q'<j. imageUrls (ts ! q') \<noteq> [] \<longrightarrow> mkdirUserError W (p + 1 + q') = None"
    proof (intro allI impI)
      fix q' assume "q' < j" "imageUrls (ts ! q') \<noteq> []"
      then show "mkdirUserError W (p + 1 + q') = None"
        using Cons.prems(4) [rule_format, of "Suc q'"] Suc by simp
    qed
    have rest: "downloadTweetsFrom P W (p + 1) ts = Inl e"
      using Cons.IH [OF j before] .
    have first: "imageUrls t \<noteq> [] \<longrightarrow> mkdirUserError W p = None"
      using Cons.prems(4) [rule_format, of 0] Suc by simp
    show ?thesis using rest first by (auto simp add: Let_def)
  qed
qed

lemma downloaded_iff:
  "downloaded W p i url \<longleftrightarrow>
     (\<exists>r buf. responseFor W p i url = Inr r \<and>
        (status r = 0 \<or> (200 \<le> status r \<and> status r \<le> 299)) \<and>
        buffer r = Inr buf \<and> writeFileError W p i = None)"
  by (auto simp add: downloaded_def downloadImageViaPage_def ok_def split: sum.splits)

text \<open>Claim C8, as amended.  When materialization is enabled and the directories the run
  creates (the root, and the author directory of every post that has images) and the download
  page are obtained, the run returns one post per input post, in order, each with its other
  fields unchanged and an image list of the same length: the image at 1-based ordinal
  \<open>i + 1\<close> is \<^verbatim>\<open>path.posix.join(userId, filename)\<close> when its download and its write
  succeed and the original reference, at the same position, when either fails.  An image is
  downloaded and written when its response arrives with a status that is \<open>0\<close> or in
  \<open>200..299\<close>, its body is read and its file is written.  The file name is
  \<^verbatim>\<open><epochSeconds>-<ordinal><ext>\<close>, with the seconds of the post's \<^verbatim>\<open>time\<close>, or of the
  clock at the moment the name of that image is made when the \<^verbatim>\<open>time\<close> does not parse, and
  the extension of the URL path, or \<^verbatim>\<open>.jpg\<close> when the URL does not parse or its path has
  none; the joined path is \<^verbatim>\<open><userId>/<filename>\<close> whenever the user id is a plain path
  segment.  A failure to create the root directory, to open the page, or to create the author
  directory of a post that has images rejects the whole run with that error.\<close>

theorem materialize_images:
  "(downloadImages options = Some True \<and> mkdirRootError W = None \<and> downloadPageError W = None \<and>
    (\<forall>p<length ts. imageUrls (ts ! p) \<noteq> [] \<longrightarrow> mkdirUserError W p = None) \<longrightarrow>
      (\<exists>out. transformTweetImages P W ts options = Inr out \<and> length out = length ts \<and>
         (\<forall>p<length ts.
            userId (out ! p) = userId (ts ! p) \<and> textContent (out ! p) = textContent (ts ! p) \<and>
            time (out ! p) = time (ts ! p) \<and>
            length (imageUrls (out ! p)) = length (imageUrls (ts ! p)) \<and>
            (\<forall>i<length (imageUrls (ts ! p)).
               imageUrls (out ! p) ! i = rewritten P W p (ts ! p) i)))) \<and>
   (downloaded W p i url \<longleftrightarrow>
      (\<exists>r buf. responseFor W p i url = Inr r \<and>
         (status r = 0 \<or> (200 \<le> status r \<and> status r \<le> 299)) \<and>
         buffer r = Inr buf \<and> writeFileError W p i = None)) \<and>
   (downloadImages options = Some True \<and> mkdirRootError W = Some e \<longrightarrow>
      transformTweetImages P W ts options = Inl e) \<and>
   (downloadImages options = Some True \<and> mkdirRootError W = None \<and>
    downloadPageError W = Some e \<longrightarrow>
      transformTweetImages P W ts options = Inl e) \<and>
   (downloadImages options = Some True \<and> mkdirRootError W = None \<and> downloadPageError W = None \<and>
    q < length ts \<and> imageUrls (ts ! q) \<noteq> [] \<and> mkdirUserError W q = Some e \<and>
    (\<forall>q'<q. imageUrls (ts ! q') \<noteq> [] \<longrightarrow> mkdirUserError W q' = None) \<longrightarrow>
      transformTweetImages P W ts options = Inl e) \<and>
   (plainSegment uid \<longrightarrow>
      posixJoin uid (createImageFilename P now tm index url)
        = uid @ ''/'' @ createImageFilename P now tm index url) \<and>
   createImageFilename P now tm index url
     = showInt (case getTime P tm of Some millis \<Rightarrow> millis div 1000 | None \<Rightarrow> now div 1000)
       @ ''-'' @ showNat index
       @ (case urlPathname P url of
            None \<Rightarrow> ''.jpg''
          | Some pathname \<Rightarrow> if extname pathname = [] then ''.jpg'' else extname pathname)"
proof (intro conjI impI)
  assume a: "downloadImages options = Some True \<and> mkdirRootError W = None \<and>
    downloadPageError W = None \<and>
    (\<forall>p<length ts. imageUrls (ts ! p) \<noteq> [] \<longrightarrow> mkdirUserError W p = None)"
  then have eq: "transformTweetImages P W ts options = downloadTweetsFrom P W 0 ts"
    by (simp add: transform_enabled)
  have "\<forall>q<length ts. imageUrls (ts ! q) \<noteq> [] \<longrightarrow> mkdirUserError W (0 + q) = None"
    using a by simp
  then obtain out where out: "downloadTweetsFrom P W 0 ts = Inr out"
    using downloadTweetsFrom_returns by blast
  note shape = downloadTweetsFrom_shape [OF out]
  have len: "length out = length ts" using shape by simp
  have per: "userId (out ! p) = userId (ts ! p) \<and> textContent (out ! p) = textContent (ts ! p) \<and>
        time (out ! p) = time (ts ! p) \<and>
        length (imageUrls (out ! p)) = length (imageUrls (ts ! p)) \<and>
        (\<forall>i<length (imageUrls (ts ! p)). imageUrls (out ! p) ! i = rewritten P W p (ts ! p) i)"
    if p: "p < length ts" for p
  proof -
    have o: "out ! p = (ts ! p)\<lparr>imageUrls :=
        downloadImagesFrom P W p (ts ! p) 0 (imageUrls (ts ! p))\<rparr>"
      using shape p by simp
    have "imageUrls (out ! p) ! i = rewritten P W p (ts ! p) i"
      if "i < length (imageUrls (ts ! p))" for i
      using downloadImagesFrom_nth [OF that, of P W p "ts ! p" 0]
      by (simp add: o rewritten_def)
    then show ?thesis by (simp add: o)
  qed
  show "\<exists>out. transformTweetImages P W ts options = Inr out \<and> length out = length ts \<and>
         (\<forall>p<length ts.
            userId (out ! p) = userId (ts ! p) \<and> textContent (out ! p) = textContent (ts ! p) \<and>
            time (out ! p) = time (ts ! p) \<and>
            length (imageUrls (out ! p)) = length (imageUrls (ts ! p)) \<and>
            (\<forall>i<length (imageUrls (ts ! p)).
               imageUrls (out ! p) ! i = rewritten P W p (ts ! p) i))"
    by (intro exI [of _ out]) (simp add: eq out len per)
next
  show "downloaded W p i url \<longleftrightarrow>
      (\<exists>r buf. responseFor W p i url = Inr r \<and>
         (status r = 0 \<or> (200 \<le> status r \<and> status r \<le> 299)) \<and>
         buffer r = Inr buf \<and> writeFileError W p i = None)"
    by (rule downloaded_iff)
next
  assume "downloadImages options = Some True \<and> mkdirRootError W = Some e"
  then show "transformTweetImages P W ts options = Inl e"
    by (simp add: transformTweetImages_def createTweetImageDownloader_def)
next
  assume "downloadImages options = Some True \<and> mkdirRootError W = None \<and>
    downloadPageError W = Some e"
  then show "transformTweetImages P W ts options = Inl e"
    by (simp add: transformTweetImages_def createTweetImageDownloader_def)
next
  assume a: "downloadImages options = Some True \<and> mkdirRootError W = None \<and>
    downloadPageError W = None \<and>
    q < length ts \<and> imageUrls (ts ! q) \<noteq> [] \<and> mkdirUserError W q = Some e \<and>
    (\<forall>q'<q. imageUrls (ts ! q') \<noteq> [] \<longrightarrow> mkdirUserError W q' = None)"
  then have eq: "transformTweetImages P W ts options = downloadTweetsFrom P W 0 ts"
    by (simp add: transform_enabled)
  have "downloadTweetsFrom P W 0 ts = Inl e"
    using a by (intro downloadTweetsFrom_mkdir_fails [where q = q]) simp_all
  then show "transformTweetImages P W ts options = Inl e"
    using eq by simp
next
  assume "plainSegment uid"
  then show "posixJoin uid (createImageFilename P now tm index url)
        = uid @ ''/'' @ createImageFilename P now tm index url"
    using createImageFilename_plain by (rule posixJoin_plain)
next
  show "createImageFilename P now tm index url
     = showInt (case getTime P tm of Some millis \<Rightarrow> millis div 1000 | None \<Rightarrow> now div 1000)
       @ ''-'' @ showNat index
       @ (case urlPathname P url of
            None \<Rightarrow> ''.jpg''
          | Some pathname \<Rightarrow> if extname pathname = [] then ''.jpg'' else extname pathname)"
    by (simp add: createImageFilename_def getImageExtension_def Let_def split: option.splits)
qed

theorem materialize_images_witness:
  "transformTweetImages refPlatform exImageWorld [photoTweet, undatedPhotoTweet] enabledOptions
     = Inr [photoTweet\<lparr>imageUrls := [''alice/1768176000-1.png'',
                                        ''https://pbs.twimg.com/media/b.jpg'',
                                        ''alice/1768176000-3.jpg'']\<rparr>,
            undatedPhotoTweet\<lparr>imageUrls := [''alice/1700000000-1.png'',
                                               ''https://pbs.twimg.com/media/b.jpg'',
                                               ''alice/1700000002-3.jpg'']\<rparr>] \<and>
   (\<exists>out. transformTweetImages refPlatform exImageWorld [photoTweet, undatedPhotoTweet] enabledOptions
        = Inr out \<and>
      length out = 2 \<and> length (imageUrls (out ! 1)) = 3 \<and>
      imageUrls (out ! 1) ! 0 = ''alice/1700000000-1.png'' \<and>
      imageUrls (out ! 1) ! 1 = ''https://pbs.twimg.com/media/b.jpg'' \<and>
      imageUrls (out ! 1) ! 2 = ''alice/1700000002-3.jpg'') \<and>
   \<not> downloaded exImageWorld 1 1 (photoUrlList ! 1) \<and>
   downloaded exImageWorld 1 2 (photoUrlList ! 2) \<and>
   status cachedResponse = 0 \<and>
   transformTweetImages refPlatform readOnlyWorld [photoTweet] enabledOptions
     = Inl (Failure ''EACCES'') \<and>
   transformTweetImages refPlatform noPageWorld [photoTweet] enabledOptions
     = Inl (Failure ''no page'') \<and>
   transformTweetImages refPlatform secondDirFails [photoTweet, photoTweet] enabledOptions
     = Inl (Failure ''EACCES'') \<and>
   posixJoin ''alice'' (createImageFilename refPlatform 1700000000123 ''not a date'' 2 ''not a url'')
     = ''alice/1700000000-2.jpg''"
proof -
  let ?ts = "[photoTweet, undatedPhotoTweet]"
  note inst = materialize_images [where options = enabledOptions and W = exImageWorld
      and ts = ?ts and P = refPlatform and uid = "''alice''" and tm = "''not a date''"
      and index = 2 and url = "photoUrlList ! 1" and now = 1700000000123 and p = 1 and i = 1]
  note inst_name = materialize_images [where P = refPlatform and uid = "''alice''"
      and tm = "''not a date''" and index = 2 and url = "''not a url''" and now = 1700000000123]
  note inst_cached = materialize_images [where W = exImageWorld and url = "photoUrlList ! 2"
      and p = 1 and i = 2]
  note inst_root = materialize_images [where options = enabledOptions and W = readOnlyWorld
      and ts = "[photoTweet]" and P = refPlatform and e = "Failure ''EACCES''"]
  note inst_page = materialize_images [where options = enabledOptions and W = noPageWorld
      and ts = "[photoTweet]" and P = refPlatform and e = "Failure ''no page''"]
  note inst_dir = materialize_images [where options = enabledOptions and W = secondDirFails
      and ts = "[photoTweet, photoTweet]" and P = refPlatform and e = "Failure ''EACCES''"
      and q = 1]
  have pre: "downloadImages enabledOptions = Some True \<and> mkdirRootError exImageWorld = None \<and>
      downloadPageError exImageWorld = None \<and>
      (\<forall>p<length ?ts. imageUrls (?ts ! p) \<noteq> [] \<longrightarrow> mkdirUserError exImageWorld p = None)"
    by (simp add: enabledOptions_def exImageWorld_def)
  obtain out where out: "transformTweetImages refPlatform exImageWorld ?ts enabledOptions = Inr out"
      "length out = length ?ts"
      "\<forall>p<length ?ts.
            userId (out ! p) = userId (?ts ! p) \<and>
            textContent (out ! p) = textContent (?ts ! p) \<and>
            time (out ! p) = time (?ts ! p) \<and>
            length (imageUrls (out ! p)) = length (imageUrls (?ts ! p)) \<and>
            (\<forall>i<length (imageUrls (?ts ! p)).
               imageUrls (out ! p) ! i = rewritten refPlatform exImageWorld p (?ts ! p) i)"
    using inst pre by blast
  have r0: "rewritten refPlatform exImageWorld 1 undatedPhotoTweet 0 = ''alice/1700000000-1.png''"
    by code_simp
  have r1: "rewritten refPlatform exImageWorld 1 undatedPhotoTweet 1 = ''https://pbs.twimg.com/media/b.jpg''"
    by code_simp
  have r2: "rewritten refPlatform exImageWorld 1 undatedPhotoTweet 2 = ''alice/1700000002-3.jpg''"
    by code_simp
  have len: "length (imageUrls undatedPhotoTweet) = 3"
    by (simp add: undatedPhotoTweet_def photoTweet_def photoUrlList_def)
  have o: "length (imageUrls (out ! 1)) = 3 \<and>
      imageUrls (out ! 1) ! 0 = ''alice/1700000000-1.png'' \<and>
      imageUrls (out ! 1) ! 1 = ''https://pbs.twimg.com/media/b.jpg'' \<and>
      imageUrls (out ! 1) ! 2 = ''alice/1700000002-3.jpg''"
    using out(3) [rule_format, of 1] len r0 r1 r2 by simp
  have "\<not> (\<exists>r buf. responseFor exImageWorld 1 1 (photoUrlList ! 1) = Inr r \<and>
         (status r = 0 \<or> (200 \<le> status r \<and> status r \<le> 299)) \<and>
         buffer r = Inr buf \<and> writeFileError exImageWorld 1 1 = None)"
    by (simp add: exImageWorld_def notFound_def)
  then have failed: "\<not> downloaded exImageWorld 1 1 (photoUrlList ! 1)"
    using inst by blast
  have "\<exists>r buf. responseFor exImageWorld 1 2 (photoUrlList ! 2) = Inr r \<and>
         (status r = 0 \<or> (200 \<le> status r \<and> status r \<le> 299)) \<and>
         buffer r = Inr buf \<and> writeFileError exImageWorld 1 2 = None"
    by (simp add: exImageWorld_def cachedResponse_def)
  then have cached: "downloaded exImageWorld 1 2 (photoUrlList ! 2)"
    using inst_cached by blast
  have root: "transformTweetImages refPlatform readOnlyWorld [photoTweet] enabledOptions
      = Inl (Failure ''EACCES'')"
    using inst_root by (simp add: enabledOptions_def readOnlyWorld_def)
  have page: "transformTweetImages refPlatform noPageWorld [photoTweet] enabledOptions
      = Inl (Failure ''no page'')"
    using inst_page by (simp add: enabledOptions_def noPageWorld_def exImageWorld_def)
  have "downloadImages enabledOptions = Some True \<and> mkdirRootError secondDirFails = None \<and>
      downloadPageError secondDirFails = None \<and>
      1 < length [photoTweet, photoTweet] \<and> imageUrls ([photoTweet, photoTweet] ! 1) \<noteq> [] \<and>
      mkdirUserError secondDirFails 1 = Some (Failure ''EACCES'') \<and>
      (\<forall>q'<1. imageUrls ([photoTweet, photoTweet] ! q') \<noteq> [] \<longrightarrow>
         mkdirUserError secondDirFails q' = None)"
    by (simp add: enabledOptions_def secondDirFails_def exImageWorld_def photoTweet_def
        photoUrlList_def)
  then have dir: "transformTweetImages refPlatform secondDirFails [photoTweet, photoTweet] enabledOptions
      = Inl (Failure ''EACCES'')"
    using inst_dir by blast
  have plain: "plainSegment ''alice''" by code_simp
  have join: "posixJoin ''alice'' (createImageFilename refPlatform 1700000000123 ''not a date'' 2 ''not a url'')
      = ''alice'' @ ''/'' @ createImageFilename refPlatform 1700000000123 ''not a date'' 2 ''not a url''"
    using inst_name plain by blast
  have name: "createImageFilename refPlatform 1700000000123 ''not a date'' 2 ''not a url''
      = ''1700000000-2.jpg''"
    by code_simp
  have run: "transformTweetImages refPlatform exImageWorld ?ts enabledOptions
     = Inr [photoTweet\<lparr>imageUrls := [''alice/1768176000-1.png'',
                                        ''https://pbs.twimg.com/media/b.jpg'',
                                        ''alice/1768176000-3.jpg'']\<rparr>,
            undatedPhotoTweet\<lparr>imageUrls := [''alice/1700000000-1.png'',
                                               ''https://pbs.twimg.com/media/b.jpg'',
                                               ''alice/1700000002-3.jpg'']\<rparr>]"
    by code_simp
  have zero: "status cachedResponse = 0" by (simp add: cachedResponse_def)
  show ?thesis
    using run out(1,2) o failed cached zero root page dir join unfolding name by simp
qed

theorem materialize_images_counterexample:
  "transformTweetImages refPlatform exImageWorld [photoTweet\<lparr>userId := []\<rparr>] enabledOptions
     = Inr [photoTweet\<lparr>userId := [],
                       imageUrls := [''1768176000-1.png'', ''https://pbs.twimg.com/media/b.jpg'',
                                     ''1768176000-3.jpg'']\<rparr>] \<and>
   ''1768176000-1.png'' \<noteq> [] @ ''/'' @ ''1768176000-1.png'' \<and>
   transformTweetImages refPlatform secondDirFails [photoTweet, photoTweet] enabledOptions
     = Inl (Failure ''EACCES'')"
  by code_simp

text \<open>Claim C9.  When \<^verbatim>\<open>downloadImages\<close> is not set to true, the materialization step
  fulfils with its input list, unchanged, in both forms of \<^verbatim>\<open>transformTweetImages\<close>.\<close>

theorem transform_disabled_identity:
  "downloadImages options \<noteq> Some True \<longrightarrow>
     transformTweetImages P W ts options = Inr ts \<and>
     transformTweetImagesInline P W ts options = Inr ts"
  by (simp add: transformTweetImages_def createTweetImageDownloader_def
      transformTweetImagesInline_def)

theorem transform_disabled_identity_witness:
  "transformTweetImages refPlatform readOnlyWorld [photoTweet, photoTweet] disabledOptions
     = Inr [photoTweet, photoTweet] \<and>
   transformTweetImagesInline refPlatform readOnlyWorld [photoTweet, photoTweet] disabledOptions
     = Inr [photoTweet, photoTweet] \<and>
   transformTweetImages refPlatform readOnlyWorld [photoTweet]
       (disabledOptions\<lparr>downloadImages := None\<rparr>) = Inr [photoTweet] \<and>
   transformTweetImages refPlatform readOnlyWorld [photoTweet] enabledOptions
     = Inl (Failure ''EACCES'')"
proof -
  have off: "downloadImages disabledOptions \<noteq> Some True"
    "downloadImages (disabledOptions\<lparr>downloadImages := None\<rparr>) \<noteq> Some True"
    by (simp_all add: disabledOptions_def)
  have on: "transformTweetImages refPlatform readOnlyWorld [photoTweet] enabledOptions
     = Inl (Failure ''EACCES'')"
    by code_simp
  show ?thesis
    using transform_disabled_identity [of disabledOptions refPlatform readOnlyWorld
        "[photoTweet, photoTweet]"]
      transform_disabled_identity [of "disabledOptions\<lparr>downloadImages := None\<rparr>" refPlatform
        readOnlyWorld "[photoTweet]"]
      off on
    by simp
qed

end
